theory Spec2Isabelle
  imports Main "HOL-Library.Word"
begin

unbundle bit_operations_syntax

section \<open>Data model (types.go)\<close>

type_synonym byte = "8 word"

text \<open>
  \<^verbatim>\<open>UMPMediaHeader\<close>: part 20 of the UMP data. \<^verbatim>\<open>ITag\<close> is an \<^verbatim>\<open>int32\<close> and
  \<^verbatim>\<open>Lmt\<close> an \<^verbatim>\<open>int64\<close>; both are only copied, never computed with.
\<close>

record UMPMediaHeader =
  VideoID :: string
  ITag :: "32 word"
  Lmt :: "64 word"

text \<open>\<^verbatim>\<open>UMPData\<close>: the pointer \<^verbatim>\<open>MediaHeader\<close> may be nil.\<close>

record UMPData =
  MediaHeader :: "UMPMediaHeader option"
  Media :: "byte list"

text \<open>
  The error values the package makes, one constructor for each message:
  \<^item> \<open>NoDataAvailable\<close>: "no data available" (readVarInt, cursor at or past the end);
  \<^item> \<open>InvalidVarint pos\<close>: "invalid varint at pos %d: all top 5 bits set";
  \<^item> \<open>IncompleteVarint\<close>: "incomplete varint";
  \<^item> \<open>FailedUnmarshal e\<close>: "failed to unmarshal media header: %w";
  \<^item> \<open>FailedParse e\<close>: "failed to parse UMP data: %w";
  \<^item> \<open>NoDataToParse\<close>: "no data to parse";
  \<^item> \<open>PanicIndexOutOfRange i\<close>: the run-time panic of a slice read at an index \<open>i\<close>
    that is not below the length.
\<close>

datatype error =
    NoDataAvailable
  | InvalidVarint nat
  | IncompleteVarint
  | FailedUnmarshal string
  | FailedParse error
  | NoDataToParse
  | PanicIndexOutOfRange nat

text \<open>
  The generated protobuf message \<^verbatim>\<open>MediaHeader\<close> and \<^verbatim>\<open>proto.Unmarshal\<close> are not part
  of the two source files. The decoding of a type-20 payload (\<^verbatim>\<open>proto.Unmarshal\<close> followed
  by the three getters) is therefore a parameter of the model: a function from the payload
  to either the decoder's error message or the header record.
\<close>

type_synonym unmarshal = "byte list \<Rightarrow> string + UMPMediaHeader"

section \<open>Varint codec\<close>

text \<open>
  \<^verbatim>\<open>getVarIntSize\<close>: the loop \<^verbatim>\<open>for shift := 1; shift <= 5; shift++\<close>, testing
  \<^verbatim>\<open>b & (0x80 >> (shift - 1))\<close>; 0 stands for an invalid varint.
\<close>

function getVarIntSize_loop :: "byte \<Rightarrow> nat \<Rightarrow> nat" where
  "getVarIntSize_loop b shift =
     (if shift \<le> 5 then
        (if b AND drop_bit (shift - 1) 0x80 = 0 then shift
         else getVarIntSize_loop b (shift + 1))
      else 0)"
  by pat_completeness auto
termination
  by (relation "measure (\<lambda>(b, shift). 6 - shift)") auto

definition getVarIntSize :: "byte \<Rightarrow> nat" where
  "getVarIntSize b = getVarIntSize_loop b 1"

text \<open>
  A slice read \<^verbatim>\<open>data[i]\<close>: Go panics when \<open>i\<close> is not below the length.
\<close>

definition byte_at :: "byte list \<Rightarrow> nat \<Rightarrow> error + byte" where
  "byte_at data i = (if i < length data then Inr (data ! i) else Inl (PanicIndexOutOfRange i))"

definition bindE :: "error + 'a \<Rightarrow> ('a \<Rightarrow> error + 'b) \<Rightarrow> error + 'b" where
  "bindE m f = (case m of Inl e \<Rightarrow> Inl e | Inr x \<Rightarrow> f x)"

text \<open>
  The \<^verbatim>\<open>switch size\<close> of \<^verbatim>\<open>readVarInt\<close>. Go's \<^verbatim>\<open>int\<close> is 64 bits wide on the
  targets considered; every value built here is below \<open>2 ^ 32\<close> (lemma
  \<open>readVarInt_value_bound\<close>), so the shifts and ors never wrap and the value is a
  natural number. A size outside 1..5 leaves \<^verbatim>\<open>value\<close> at its zero value.
\<close>

definition readVarInt_switch :: "byte list \<Rightarrow> nat \<Rightarrow> byte \<Rightarrow> nat \<Rightarrow> error + nat" where
  "readVarInt_switch data start first sz =
     (if sz = 1 then Inr (unat first)
      else if sz = 2 then
        bindE (byte_at data (start + 1)) (\<lambda>b1.
          Inr (unat (first AND 0x3F) OR push_bit 6 (unat b1)))
      else if sz = 3 then
        bindE (byte_at data (start + 1)) (\<lambda>b1.
        bindE (byte_at data (start + 2)) (\<lambda>b2.
          Inr (unat (first AND 0x1F) OR push_bit 5 (unat b1) OR push_bit 13 (unat b2))))
      else if sz = 4 then
        bindE (byte_at data (start + 1)) (\<lambda>b1.
        bindE (byte_at data (start + 2)) (\<lambda>b2.
        bindE (byte_at data (start + 3)) (\<lambda>b3.
          Inr (unat (first AND 0x0F) OR push_bit 4 (unat b1) OR push_bit 12 (unat b2)
                 OR push_bit 20 (unat b3)))))
      else if sz = 5 then
        bindE (byte_at data (start + 1)) (\<lambda>b1.
        bindE (byte_at data (start + 2)) (\<lambda>b2.
        bindE (byte_at data (start + 3)) (\<lambda>b3.
        bindE (byte_at data (start + 4)) (\<lambda>b4.
          Inr (unat b1 OR push_bit 8 (unat b2) OR push_bit 16 (unat b3)
                 OR push_bit 24 (unat b4))))))
      else Inr 0)"

text \<open>
  \<^verbatim>\<open>readVarInt(data, offset)\<close>: the result is the pair of the returned
  \<^verbatim>\<open>(int, error)\<close> (as a sum) and the value of \<^verbatim>\<open>*offset\<close> afterwards. The cursor is
  a natural number: the only caller starts it at 0 and only ever adds to it.
\<close>

definition readVarInt :: "byte list \<Rightarrow> nat \<Rightarrow> (error + nat) \<times> nat" where
  "readVarInt data offset =
     (let start = offset in
      if start \<ge> length data then (Inl NoDataAvailable, offset)
      else
        (case byte_at data start of
           Inl e \<Rightarrow> (Inl e, offset)
         | Inr first \<Rightarrow>
             (let sz = getVarIntSize first in
              if sz = 0 then (Inl (InvalidVarint start), offset)
              else if start + sz > length data then (Inl IncompleteVarint, offset)
              else
                (case readVarInt_switch data start first sz of
                   Inl e \<Rightarrow> (Inl e, offset)
                 | Inr value \<Rightarrow> (Inr value, offset + sz)))))"

section \<open>Facts about the varint codec\<close>

lemma readVarInt_advance:
  assumes "readVarInt data offset = (Inr v, offset')"
  shows "offset < offset' \<and> offset' \<le> length data"
  using assms
  by (auto simp: readVarInt_def Let_def split: if_splits sum.splits)


section \<open>Stream state machine\<close>

text \<open>
  The three objects \<^verbatim>\<open>stateMachineParser\<close> mutates through its pointer arguments:
  the pending-bytes buffer (the unread part of the \<^verbatim>\<open>bytes.Buffer\<close>), the media
  accumulator and the first-media flag.
\<close>

record session =
  buf :: "byte list"
  mediaAcc :: "byte list"
  firstMedia :: bool

text \<open>
  The \<^verbatim>\<open>for\<close> loop of \<^verbatim>\<open>stateMachineParser\<close> over the local \<^verbatim>\<open>offset\<close> and
  \<^verbatim>\<open>umpHeader\<close> and the caller's \<^verbatim>\<open>mediaAcc\<close> and \<^verbatim>\<open>firstMedia\<close>. The result is
  \<open>Inr (offset, umpHeader)\<close> when the loop is left by a \<^verbatim>\<open>break\<close>, \<open>Inl e\<close> when
  the function returns from inside the loop with an error; in both cases together with the
  accumulator and the flag as they are then.

  Every error of \<^verbatim>\<open>readVarInt\<close> takes the \<^verbatim>\<open>break\<close>, whatever its message. After a
  failed second read the code runs \<^verbatim>\<open>offset -= 0\<close>, which leaves the cursor behind the
  part type. The slice \<^verbatim>\<open>data[offset : offset+partSize]\<close> is taken below the test
  \<^verbatim>\<open>offset+partSize > len(data)\<close>, so it is in range: \<open>take\<close> and \<open>drop\<close> compute it.
\<close>

function smp_loop ::
  "unmarshal \<Rightarrow> byte list \<Rightarrow> nat \<Rightarrow> UMPMediaHeader option \<Rightarrow> byte list \<Rightarrow> bool \<Rightarrow>
     (error + nat \<times> UMPMediaHeader option) \<times> byte list \<times> bool" where
  "smp_loop um data offset umpHeader acc fm =
     (if offset \<ge> length data then (Inr (offset, umpHeader), acc, fm)
      else
        (case readVarInt data offset of
           (Inl err, offset1) \<Rightarrow> (Inr (offset1, umpHeader), acc, fm)
         | (Inr partType, offset1) \<Rightarrow>
             (case readVarInt data offset1 of
                (Inl err, offset2) \<Rightarrow> (Inr (offset2 - 0, umpHeader), acc, fm)
              | (Inr partSize, offset2) \<Rightarrow>
                  if partSize = 0 then smp_loop um data offset2 umpHeader acc fm
                  else if offset2 + partSize > length data then
                    (Inr (offset2, umpHeader), acc, fm)
                  else
                    (let payload = take partSize (drop offset2 data) in
                     case (if partType = 20 then
                             (case um payload of
                                Inl perr \<Rightarrow> Inl (FailedUnmarshal perr)
                              | Inr h \<Rightarrow> Inr (Some h))
                           else Inr umpHeader) of
                       Inl e \<Rightarrow> (Inl e, acc, fm)
                     | Inr umpHeader' \<Rightarrow>
                         (let (acc', fm') =
                            (if partType = 21 then
                               (if \<not> fm \<and> length payload > 0 \<and> hd payload = 0
                                then (acc @ tl payload, True)
                                else (acc @ payload, True))
                             else (acc, fm))
                          in smp_loop um data (offset2 + partSize) umpHeader' acc' fm')))))"
  by pat_completeness auto
termination
proof (relation "measure (\<lambda>(um, data, offset, umpHeader, acc, fm). length data - offset)",
       goal_cases)
  case 1
  show ?case by simp
next
  case 2
  then show ?case
    by (auto dest!: readVarInt_advance[OF sym])
next
  case 3
  then show ?case
    by (auto dest!: readVarInt_advance[OF sym])
qed

declare smp_loop.simps [simp del]

text \<open>
  \<^verbatim>\<open>stateMachineParser(buf, mediaAcc, firstMedia)\<close>: \<^verbatim>\<open>data := buf.Bytes()\<close>, the loop,
  then \<^verbatim>\<open>buf.Next(offset)\<close>, which drops the first \<open>offset\<close> unread bytes (all of them
  when there are fewer). The early \<^verbatim>\<open>return nil, err\<close> leaves the buffer as it was.
\<close>

definition stateMachineParser ::
  "unmarshal \<Rightarrow> session \<Rightarrow> (error + UMPMediaHeader option) \<times> session" where
  "stateMachineParser um s =
     (let data = buf s in
      case smp_loop um data 0 None (mediaAcc s) (firstMedia s) of
        (Inl e, acc, fm) \<Rightarrow> (Inl e, \<lparr>buf = data, mediaAcc = acc, firstMedia = fm\<rparr>)
      | (Inr (offset, umpHeader), acc, fm) \<Rightarrow>
          (Inr umpHeader, \<lparr>buf = drop offset data, mediaAcc = acc, firstMedia = fm\<rparr>))"

section \<open>Decode orchestration\<close>

text \<open>
  The assignment \<^verbatim>\<open>if h != nil { umpHeader = h }\<close> of both entry points.
\<close>

definition update_header ::
  "UMPMediaHeader option \<Rightarrow> UMPMediaHeader option \<Rightarrow> UMPMediaHeader option" where
  "update_header umpHeader h = (case h of None \<Rightarrow> umpHeader | Some x \<Rightarrow> Some x)"

text \<open>
  The \<^verbatim>\<open>for _, chunk := range data\<close> loop of \<^verbatim>\<open>ParseUMPChunks\<close>: an empty chunk is
  skipped, any other is written to the buffer and the state machine runs once.
\<close>

fun chunks_loop ::
  "unmarshal \<Rightarrow> byte list list \<Rightarrow> UMPMediaHeader option \<Rightarrow> session \<Rightarrow>
     error + UMPMediaHeader option \<times> session" where
  "chunks_loop um [] umpHeader s = Inr (umpHeader, s)"
| "chunks_loop um (chunk # rest) umpHeader s =
     (if length chunk = 0 then chunks_loop um rest umpHeader s
      else
        (case stateMachineParser um (s\<lparr>buf := buf s @ chunk\<rparr>) of
           (Inl err, s') \<Rightarrow> Inl (FailedParse err)
         | (Inr h, s') \<Rightarrow> chunks_loop um rest (update_header umpHeader h) s'))"

definition ParseUMPChunks :: "unmarshal \<Rightarrow> byte list list \<Rightarrow> error + UMPData" where
  "ParseUMPChunks um data =
     (if length data = 0 then Inl NoDataToParse
      else
        (case chunks_loop um data None \<lparr>buf = [], mediaAcc = [], firstMedia = False\<rparr> of
           Inl e \<Rightarrow> Inl e
         | Inr (umpHeader, s) \<Rightarrow> Inr \<lparr>MediaHeader = umpHeader, Media = mediaAcc s\<rparr>))"

text \<open>
  The loop \<^verbatim>\<open>for buf.Len() > 0\<close> of \<^verbatim>\<open>ParseUMPFull\<close>. Nothing in the code bounds the
  number of its rounds, so it is a partial function: \<open>None\<close> is the loop that never
  ends, \<open>Some r\<close> the loop that returns \<open>r\<close>.
\<close>

partial_function (option) full_loop ::
  "unmarshal \<Rightarrow> UMPMediaHeader option \<Rightarrow> session \<Rightarrow>
     (error + UMPMediaHeader option \<times> session) option" where
  "full_loop um umpHeader s =
     (if length (buf s) > 0 then
        (case stateMachineParser um s of
           (Inl err, s') \<Rightarrow> Some (Inl (FailedParse err))
         | (Inr h, s') \<Rightarrow> full_loop um (update_header umpHeader h) s')
      else Some (Inr (umpHeader, s)))"

definition ParseUMPFull :: "unmarshal \<Rightarrow> byte list \<Rightarrow> (error + UMPData) option" where
  "ParseUMPFull um data =
     (if length data = 0 then Some (Inl NoDataToParse)
      else
        (case full_loop um None \<lparr>buf = data, mediaAcc = [], firstMedia = False\<rparr> of
           None \<Rightarrow> None
         | Some (Inl e) \<Rightarrow> Some (Inl e)
         | Some (Inr (umpHeader, s)) \<Rightarrow>
             Some (Inr \<lparr>MediaHeader = umpHeader, Media = mediaAcc s\<rparr>)))"

section \<open>Notions of the specification\<close>

text \<open>
  The number of leading 1-bits of a byte, as the encoding table of the specification counts
  them: from bit 7 downwards, up to the first 0-bit.
\<close>

definition leading_ones :: "byte \<Rightarrow> nat" where
  "leading_ones b = length (takeWhile (bit b) [7, 6, 5, 4, 3, 2, 1, 0])"

text \<open>
  The wire format of the specification: repeating parts, each the varint of the type, the
  varint of the length and then that many payload bytes. A part is written here as the pair
  of its header bytes (the two varints) and its payload. \<open>part_header\<close> reads the two
  varints with the source's \<open>readVarInt\<close> and asks that they fill the header bytes
  exactly; a part is well framed when the length so announced is the length of its payload.
  \<open>wire\<close> is the byte sequence of a list of parts.
\<close>

type_synonym part = "byte list \<times> byte list"

definition part_header :: "byte list \<Rightarrow> (nat \<times> nat) option" where
  "part_header hb =
     (case readVarInt hb 0 of
        (Inl e, k) \<Rightarrow> None
      | (Inr t, k) \<Rightarrow>
          (case readVarInt hb k of
             (Inl e, m) \<Rightarrow> None
           | (Inr n, m) \<Rightarrow> if m = length hb then Some (t, n) else None))"

definition well_framed :: "part \<Rightarrow> bool" where
  "well_framed q =
     (case part_header (fst q) of None \<Rightarrow> False | Some (t, n) \<Rightarrow> n = length (snd q))"

definition part_type :: "part \<Rightarrow> nat" where
  "part_type q = (case part_header (fst q) of None \<Rightarrow> 0 | Some (t, n) \<Rightarrow> t)"

definition wire :: "part list \<Rightarrow> byte list" where
  "wire ps = concat (map (\<lambda>q. fst q @ snd q) ps)"

text \<open>
  The payloads that reach the dispatch on the part type: a part of length zero is skipped
  before it (step d of the specification comes before step g). \<open>media_payloads\<close> are
  those of the type-21 parts, \<open>header_payloads\<close> those of the type-20 parts, in order.
\<close>

definition media_payloads :: "part list \<Rightarrow> byte list list" where
  "media_payloads ps = map snd (filter (\<lambda>q. part_type q = 21 \<and> snd q \<noteq> []) ps)"

definition header_payloads :: "part list \<Rightarrow> byte list list" where
  "header_payloads ps = map snd (filter (\<lambda>q. part_type q = 20 \<and> snd q \<noteq> []) ps)"

text \<open>
  The media rule in the specification's words: if this is the first media part ever seen
  in the session and the payload is non-empty and its first byte is zero, the payload goes
  to the accumulator without that byte; otherwise, and for every later media part, in full.
  \<open>seen\<close> is the first-media-seen flag at the start.
\<close>

definition first_media_rule :: "bool \<Rightarrow> byte list list \<Rightarrow> byte list" where
  "first_media_rule seen ms =
     (case ms of
        [] \<Rightarrow> []
      | m # rest \<Rightarrow> (if \<not> seen \<and> m \<noteq> [] \<and> hd m = 0 then tl m else m) @ concat rest)"

text \<open>
  Last writer wins: the header record is the one decoded from the last type-20 payload, the
  previous record when there is none. \<open>decodable\<close> says that the decoder accepts every
  type-20 payload (otherwise the decode fails as a whole).
\<close>

definition last_header ::
  "unmarshal \<Rightarrow> UMPMediaHeader option \<Rightarrow> byte list list \<Rightarrow> UMPMediaHeader option" where
  "last_header um prev hs =
     (if hs = [] then prev else (case um (last hs) of Inl e \<Rightarrow> None | Inr h \<Rightarrow> Some h))"

definition decodable :: "unmarshal \<Rightarrow> part list \<Rightarrow> bool" where
  "decodable um ps =
     list_all (\<lambda>p. case um p of Inl e \<Rightarrow> False | Inr h \<Rightarrow> True) (header_payloads ps)"

text \<open>
  A buffer in which no part is complete at the front: the first varint cannot be read, or
  the second cannot, or the payload is shorter than the non-zero length announced. For such
  a buffer \<open>pending_after\<close> gives the bytes a call of the state machine leaves pending
  (all of it, all but the type varint, all but the header, in the three cases); \<open>None\<close>
  when a whole part stands at the front.
\<close>

definition pending_after :: "byte list \<Rightarrow> byte list option" where
  "pending_after tail =
     (case readVarInt tail 0 of
        (Inl e, k) \<Rightarrow> Some tail
      | (Inr t, k) \<Rightarrow>
          (case readVarInt tail k of
             (Inl e, m) \<Rightarrow> Some (drop k tail)
           | (Inr n, m) \<Rightarrow>
               if n \<noteq> 0 \<and> length tail < m + n then Some (drop m tail) else None))"

text \<open>
  A chunked session, call by call. A step is a chunk together with the whole parts that
  stand at the front of the buffer once the chunk is appended to the pending bytes; what
  follows those parts must have no complete part at the front. An empty chunk makes no call.
  \<open>session_pending\<close> gives the bytes pending at the end, \<open>None\<close> when a step is not
  of this shape.
\<close>

fun session_pending :: "byte list \<Rightarrow> (byte list \<times> part list) list \<Rightarrow> byte list option" where
  "session_pending pending [] = Some pending"
| "session_pending pending ((chunk, ps) # later) =
     (if chunk = [] then (if ps = [] then session_pending pending later else None)
      else if list_all well_framed ps \<and> take (length (wire ps)) (pending @ chunk) = wire ps
      then
        (case pending_after (drop (length (wire ps)) (pending @ chunk)) of
           None \<Rightarrow> None
         | Some rest \<Rightarrow> session_pending rest later)
      else None)"

text \<open>
  The same for the whole-buffer entry point: the calls of its loop, each given by the whole
  parts at the front of what the call before left pending, until nothing is pending.
\<close>

fun whole_buffer_calls :: "byte list \<Rightarrow> part list list \<Rightarrow> bool" where
  "whole_buffer_calls data [] = (data = [])"
| "whole_buffer_calls data (ps # later) =
     (data \<noteq> [] \<and> list_all well_framed ps \<and> take (length (wire ps)) data = wire ps
      \<and> (case pending_after (drop (length (wire ps)) data) of
            None \<Rightarrow> False
          | Some rest \<Rightarrow> whole_buffer_calls rest later))"

section \<open>Auxiliary notions for the proofs\<close>

text \<open>
  Three ways to transport a result: \<open>shift_result k\<close> moves the cursor of a loop result
  by \<open>k\<close> (the same loop run behind a prefix of \<open>k\<close> bytes); \<open>with_previous_header\<close>
  is a loop result seen from a loop that already held a header record; \<open>resumed\<close> is
  the result of a call on the rest of a buffer, seen from the call on the whole buffer
  (which keeps the whole buffer when the call fails).
\<close>

definition shift_result ::
  "nat \<Rightarrow> (error + nat \<times> UMPMediaHeader option) \<times> byte list \<times> bool \<Rightarrow>
     (error + nat \<times> UMPMediaHeader option) \<times> byte list \<times> bool" where
  "shift_result k r =
     (case r of (Inl e, acc, fm) \<Rightarrow> (Inl e, acc, fm)
      | (Inr (offset, h), acc, fm) \<Rightarrow> (Inr (k + offset, h), acc, fm))"

definition with_previous_header ::
  "UMPMediaHeader option \<Rightarrow> (error + nat \<times> UMPMediaHeader option) \<times> byte list \<times> bool \<Rightarrow>
     (error + nat \<times> UMPMediaHeader option) \<times> byte list \<times> bool" where
  "with_previous_header prev r =
     (case r of (Inl e, acc, fm) \<Rightarrow> (Inl e, acc, fm)
      | (Inr (offset, h), acc, fm) \<Rightarrow> (Inr (offset, update_header prev h), acc, fm))"

definition resumed ::
  "byte list \<Rightarrow> UMPMediaHeader option \<Rightarrow> (error + UMPMediaHeader option) \<times> session \<Rightarrow>
     (error + UMPMediaHeader option) \<times> session" where
  "resumed whole prev r =
     (case r of
        (Inl e, s') \<Rightarrow> (Inl e, s'\<lparr>buf := whole\<rparr>)
      | (Inr h, s') \<Rightarrow> (Inr (update_header prev h), s'))"

section \<open>The varint codec: size, value, cursor and bounds\<close>

lemmas ump_eval =
  ParseUMPFull_def ParseUMPChunks_def full_loop.simps stateMachineParser_def smp_loop.simps
  readVarInt_def byte_at_def bindE_def getVarIntSize_def
  readVarInt_switch_def update_header_def

lemma mask_bit:
  fixes b :: byte
  shows "(b AND 0x80 = 0) = (\<not> bit b 7)" "(b AND 0x40 = 0) = (\<not> bit b 6)"
    "(b AND 0x20 = 0) = (\<not> bit b 5)" "(b AND 0x10 = 0) = (\<not> bit b 4)"
    "(b AND 0x08 = 0) = (\<not> bit b 3)"
  using and_exp_eq_0_iff_not_bit[of b 7] and_exp_eq_0_iff_not_bit[of b 6]
    and_exp_eq_0_iff_not_bit[of b 5] and_exp_eq_0_iff_not_bit[of b 4]
    and_exp_eq_0_iff_not_bit[of b 3]
  by simp_all

lemma shifted_masks:
  "drop_bit 0 (0x80 :: byte) = 0x80" "drop_bit (Suc 0) (0x80 :: byte) = 0x40"
  "drop_bit 2 (0x80 :: byte) = 0x20" "drop_bit 3 (0x80 :: byte) = 0x10"
  "drop_bit 4 (0x80 :: byte) = 0x08"
  by (simp_all add: drop_bit_eq_div)

lemma getVarIntSize_unfold:
  "getVarIntSize b =
     (if \<not> bit b 7 then 1 else if \<not> bit b 6 then 2 else if \<not> bit b 5 then 3
      else if \<not> bit b 4 then 4 else if \<not> bit b 3 then 5 else 0)"
  by (simp add: getVarIntSize_def shifted_masks mask_bit)

lemma getVarIntSize_leading_ones:
  "getVarIntSize b = (if leading_ones b < 5 then leading_ones b + 1 else 0)"
  by (simp add: getVarIntSize_unfold leading_ones_def)

lemma getVarIntSize_le5: "getVarIntSize b \<le> 5"
  by (simp add: getVarIntSize_unfold)

lemma readVarInt_switch_in_range:
  assumes "start + sz \<le> length data" "0 < sz"
  shows "\<exists>v. readVarInt_switch data start first sz = Inr v"
  using assms by (simp add: readVarInt_switch_def byte_at_def bindE_def)


lemma nat_or_bound: 
  assumes "x < 2 ^ n" "y < 2 ^ n" shows "x OR y < (2::nat) ^ n"
proof -
  have "take_bit n (x OR y) = x OR y"
    using assms by (simp add: take_bit_or take_bit_nat_eq_self)
  then show ?thesis by (metis take_bit_nat_less_exp)
qed

lemma push_byte_bound:
  assumes "k + 8 \<le> n" shows "push_bit k (unat (b :: byte)) < (2::nat) ^ n"
proof -
  have "unat b < 2 ^ 8" using unsigned_less[of b] by simp
  then have "push_bit k (unat b) < 2 ^ (k + 8)"
    by (simp add: push_bit_eq_mult power_add)
  also have "(2::nat) ^ (k + 8) \<le> 2 ^ n" using assms by (simp add: power_increasing)
  finally show ?thesis .
qed

lemma byte_bound: "8 \<le> n \<Longrightarrow> unat (b :: byte) < 2 ^ n"
  using push_byte_bound[of 0 n b] by simp

lemma readVarInt_switch_bound_gen:
  assumes "readVarInt_switch data start first sz = Inr v" "32 \<le> N"
  shows "v < 2 ^ N"
  using assms
  by (auto simp: readVarInt_switch_def bindE_def
      split: if_splits sum.splits intro!: nat_or_bound push_byte_bound byte_bound)

lemma readVarInt_value_bound:
  assumes "readVarInt data offset = (Inr v, offset')"
  shows "v < 2 ^ 32"
proof -
  from assms obtain first sz where "readVarInt_switch data offset first sz = Inr v"
    by (auto simp: readVarInt_def Let_def split: if_splits sum.splits)
  from readVarInt_switch_bound_gen[OF this, of 32] show ?thesis by simp
qed

text \<open>
  C6. For a first byte with fewer than five leading 1-bits, \<open>readVarInt\<close> returns the value
  of the encoding table and moves the cursor by the size of the class, the number of leading
  1-bits plus one: one byte gives the byte itself; two bytes give the low 6 bits of the first
  byte or-ed with the second byte shifted left by 6; three bytes the low 5 bits, then shifts
  by 5 and 13; four bytes the low 4 bits, then shifts by 4, 12 and 20; five bytes the four
  continuation bytes at shifts 0, 8, 16 and 24, nothing of the first byte. The continuation
  bytes are least significant first. The varint may stand anywhere in the slice (after
  \<open>pre\<close>, before \<open>suf\<close>).
\<close>

theorem readVarInt_table:
  "(leading_ones b0 = 0 \<longrightarrow>
      readVarInt (pre @ b0 # suf) (length pre) = (Inr (unat b0), length pre + 1))
   \<and> (leading_ones b0 = 1 \<longrightarrow>
      readVarInt (pre @ b0 # b1 # suf) (length pre) =
        (Inr (unat (b0 AND 0x3F) OR push_bit 6 (unat b1)), length pre + 2))
   \<and> (leading_ones b0 = 2 \<longrightarrow>
      readVarInt (pre @ b0 # b1 # b2 # suf) (length pre) =
        (Inr (unat (b0 AND 0x1F) OR push_bit 5 (unat b1) OR push_bit 13 (unat b2)),
         length pre + 3))
   \<and> (leading_ones b0 = 3 \<longrightarrow>
      readVarInt (pre @ b0 # b1 # b2 # b3 # suf) (length pre) =
        (Inr (unat (b0 AND 0x0F) OR push_bit 4 (unat b1) OR push_bit 12 (unat b2)
                OR push_bit 20 (unat b3)),
         length pre + 4))
   \<and> (leading_ones b0 = 4 \<longrightarrow>
      readVarInt (pre @ b0 # b1 # b2 # b3 # b4 # suf) (length pre) =
        (Inr (unat b1 OR push_bit 8 (unat b2) OR push_bit 16 (unat b3)
                OR push_bit 24 (unat b4)),
         length pre + 5))"
  by (simp add: readVarInt_def byte_at_def bindE_def readVarInt_switch_def
      getVarIntSize_leading_ones nth_append)

theorem readVarInt_table_witness:
  "readVarInt [0x00, 0x41] 1 = (Inr 65, 2)
   \<and> readVarInt [0x95, 0x01] 0 = (Inr 85, 2)
   \<and> readVarInt [0xC5, 0x01, 0x02, 0xFF] 0 = (Inr 16421, 3)
   \<and> readVarInt [0xE3, 0x01, 0x02, 0x03] 0 = (Inr 3153939, 4)
   \<and> readVarInt [0xF7, 0x01, 0x02, 0x03, 0x04] 0 = (Inr 67305985, 5)"
proof -
  have l: "leading_ones 0x41 = 0" "leading_ones 0x95 = 1" "leading_ones 0xC5 = 2"
    "leading_ones 0xE3 = 3" "leading_ones 0xF7 = 4"
    by (simp_all add: leading_ones_def)
  show ?thesis
    using l readVarInt_table[where ?b0.0 = "0x41" and pre = "[0x00]" and suf = "[]"]
      readVarInt_table[where ?b0.0 = "0x95" and pre = "[]" and suf = "[]" and ?b1.0 = "0x01"]
      readVarInt_table[where ?b0.0 = "0xC5" and pre = "[]" and suf = "[0xFF]" and ?b1.0 = "0x01"
        and ?b2.0 = "0x02"]
      readVarInt_table[where ?b0.0 = "0xE3" and pre = "[]" and suf = "[]" and ?b1.0 = "0x01"
        and ?b2.0 = "0x02" and ?b3.0 = "0x03"]
      readVarInt_table[where ?b0.0 = "0xF7" and pre = "[]" and suf = "[]" and ?b1.0 = "0x01"
        and ?b2.0 = "0x02" and ?b3.0 = "0x03" and ?b4.0 = "0x04"]
    by simp
qed

text \<open>
  C7. For every slice and cursor, \<open>readVarInt\<close> never reads at an index that is not below
  the length (the panic outcome is never its result); when the slice ends before the size
  the first byte announces, it fails with the incomplete-varint error, which is not the
  invalid-varint error; on every failure the cursor is as before; on success, and only
  then, it has moved forward, and it stays within the slice.
\<close>

theorem readVarInt_safe:
  "(\<forall>i. fst (readVarInt data offset) \<noteq> Inl (PanicIndexOutOfRange i))
   \<and> (offset < length data \<and> 0 < getVarIntSize (data ! offset)
        \<and> length data < offset + getVarIntSize (data ! offset)
       \<longrightarrow> readVarInt data offset = (Inl IncompleteVarint, offset))
   \<and> (\<forall>e. fst (readVarInt data offset) = Inl e \<longrightarrow> snd (readVarInt data offset) = offset)
   \<and> (\<forall>v. fst (readVarInt data offset) = Inr v \<longrightarrow>
          offset < snd (readVarInt data offset) \<and> snd (readVarInt data offset) \<le> length data)"
proof (cases "offset < length data")
  case False
  then show ?thesis by (simp add: readVarInt_def)
next
  case True
  define first where "first = data ! offset"
  define sz where "sz = getVarIntSize first"
  show ?thesis
  proof (cases "sz = 0 \<or> length data < offset + sz")
    case True
    with \<open>offset < length data\<close> show ?thesis
      by (auto simp: readVarInt_def byte_at_def Let_def first_def sz_def)
  next
    case False
    then have "offset + sz \<le> length data" "0 < sz" by simp_all
    from readVarInt_switch_in_range[OF this, of first]
    obtain v where "readVarInt_switch data offset first sz = Inr v" ..
    with False \<open>offset < length data\<close> show ?thesis
      by (auto simp: readVarInt_def byte_at_def Let_def first_def sz_def)
  qed
qed


theorem readVarInt_safe_witness:
  "(1::nat) < length [0x15, 0x80 :: byte] \<and> 0 < getVarIntSize ([0x15, 0x80] ! 1)
   \<and> length [0x15, 0x80 :: byte] < 1 + getVarIntSize ([0x15, 0x80] ! 1)
   \<and> readVarInt [0x15, 0x80] 1 = (Inl IncompleteVarint, 1)
   \<and> fst (readVarInt [0x15, 0xF8] 1) = Inl (InvalidVarint 1)
   \<and> snd (readVarInt [0x15, 0xF8] 1) = 1
   \<and> fst (readVarInt [0x15, 0x80] 0) = Inr 21
   \<and> 0 < snd (readVarInt [0x15, 0x80] 0)"
proof -
  have sz: "getVarIntSize 0x80 = 2" "getVarIntSize 0xF8 = 0" "getVarIntSize 0x15 = 1"
    by (simp_all add: getVarIntSize_def)
  have f: "fst (readVarInt [0x15, 0xF8] 1) = Inl (InvalidVarint 1)"
    "fst (readVarInt [0x15, 0x80] 0) = Inr 21"
    by (simp_all add: readVarInt_def byte_at_def readVarInt_switch_def sz)
  show ?thesis
    using sz f readVarInt_safe[of "[0x15, 0x80]" 1] readVarInt_safe[of "[0x15, 0xF8]" 1]
      readVarInt_safe[of "[0x15, 0x80]" 0]
    by simp
qed


section \<open>The state machine and the entry points on short inputs\<close>

lemma full_loop_stuck:
  "full_loop um h s = Some r \<Longrightarrow>
     \<not> (buf s \<noteq> [] \<and> (\<exists>h'. stateMachineParser um s = (Inr h', s)))"
proof (induction um h s r rule: full_loop.raw_induct[rotated 1, consumes 1, case_names step])
  case (step lp um hdr s y)
  show ?case
  proof
    assume a: "buf s \<noteq> [] \<and> (\<exists>h'. stateMachineParser um s = (Inr h', s))"
    then obtain h' where h': "stateMachineParser um s = (Inr h', s)" by blast
    with a step.hyps have "lp um (update_header hdr h') s = Some y" by simp
    with step.IH a show False by blast
  qed
qed

lemma readVarInt_failure_keeps_cursor:
  "readVarInt data offset = (Inl e, offset') \<Longrightarrow> offset' = offset"
  by (auto simp: readVarInt_def Let_def split: if_splits sum.splits)

lemma stateMachineParser_first_read_fails:
  assumes "readVarInt data 0 = (Inl e, k)"
  shows "stateMachineParser um \<lparr>buf = data, mediaAcc = acc, firstMedia = fm\<rparr> =
           (Inr None, \<lparr>buf = data, mediaAcc = acc, firstMedia = fm\<rparr>)"
proof -
  have k: "k = 0" using readVarInt_failure_keeps_cursor[OF assms] .
  show ?thesis
    using assms k by (simp add: stateMachineParser_def smp_loop.simps[of um data 0])
qed

lemma ParseUMPFull_stuck:
  assumes "data \<noteq> []" "readVarInt data 0 = (Inl e, k)"
  shows "ParseUMPFull um data = None"
proof (cases "full_loop um None \<lparr>buf = data, mediaAcc = [], firstMedia = False\<rparr>")
  case None
  with assms(1) show ?thesis by (simp add: ParseUMPFull_def)
next
  case (Some r)
  from full_loop_stuck[OF this] stateMachineParser_first_read_fails[OF assms(2)] assms(1)
  show ?thesis by simp
qed

text \<open>
  C3. The whole-buffer entry point does not return for every non-empty input. On the one
  byte \<open>0x80\<close>, the first byte of a two-byte varint with nothing after it, the state
  machine consumes nothing, the buffer stays non-empty, and the loop
  \<^verbatim>\<open>for buf.Len() > 0\<close> runs forever.
\<close>

theorem ParseUMPFull_incomplete_varint_never_returns:
  "ParseUMPFull um [0x80] = None"
proof -
  have "readVarInt [0x80] 0 = (Inl IncompleteVarint, 0)"
    by (simp add: readVarInt_def byte_at_def getVarIntSize_def)
  from ParseUMPFull_stuck[OF _ this] show ?thesis by simp
qed

text \<open>
  C1. The bytes \<open>0x15 0x01 0x41\<close> are one media part (type 21, length 1, payload
  \<open>0x41\<close>). The whole-buffer entry point returns the media \<open>[0x41]\<close>. Fed in two
  chunks, split after the first or after the second byte, the chunked entry point returns
  empty media: the first call has already dropped the header bytes it could read.
\<close>

theorem chunk_split_changes_result:
  "ParseUMPFull um [0x15, 0x01, 0x41] = Some (Inr \<lparr>MediaHeader = None, Media = [0x41]\<rparr>)
   \<and> ParseUMPChunks um [[0x15], [0x01, 0x41]] = Inr \<lparr>MediaHeader = None, Media = []\<rparr>
   \<and> ParseUMPChunks um [[0x15, 0x01], [0x41]] = Inr \<lparr>MediaHeader = None, Media = []\<rparr>"
  by (simp add: ump_eval)

text \<open>
  C2. A buffer holding the header of a media part of length 2 and one payload byte: the
  state machine stops behind the header (not before it) and evicts the two header bytes, so
  only the payload byte stays. After the missing byte is appended, the next call reads the
  two payload bytes as a part header; the part is never completed, and the media stays
  empty, where the same four bytes in one chunk give the media \<open>[0x41, 0x42]\<close>.
\<close>

theorem incomplete_payload_header_evicted:
  "stateMachineParser um \<lparr>buf = [0x15, 0x02, 0x41], mediaAcc = [], firstMedia = False\<rparr> =
     (Inr None, \<lparr>buf = [0x41], mediaAcc = [], firstMedia = False\<rparr>)
   \<and> stateMachineParser um \<lparr>buf = [0x41] @ [0x42], mediaAcc = [], firstMedia = False\<rparr> =
     (Inr None, \<lparr>buf = [], mediaAcc = [], firstMedia = False\<rparr>)
   \<and> ParseUMPChunks um [[0x15, 0x02, 0x41], [0x42]] = Inr \<lparr>MediaHeader = None, Media = []\<rparr>
   \<and> ParseUMPChunks um [[0x15, 0x02, 0x41, 0x42]] =
         Inr \<lparr>MediaHeader = None, Media = [0x41, 0x42]\<rparr>"
  by (simp add: ump_eval)

text \<open>
  C4. On a first byte with all five top bits set, \<open>readVarInt\<close> makes the invalid-varint
  error with the position, but the state machine takes the same \<^verbatim>\<open>break\<close> as for missing
  data: it returns no error and consumes nothing. The chunked entry point then returns an
  empty result without error, and the whole-buffer entry point never returns.
\<close>

theorem malformed_varint_absorbed:
  "readVarInt [0xF8] 0 = (Inl (InvalidVarint 0), 0)
   \<and> stateMachineParser um \<lparr>buf = [0xF8], mediaAcc = [], firstMedia = False\<rparr> =
       (Inr None, \<lparr>buf = [0xF8], mediaAcc = [], firstMedia = False\<rparr>)
   \<and> ParseUMPChunks um [[0xF8]] = Inr \<lparr>MediaHeader = None, Media = []\<rparr>
   \<and> ParseUMPFull um [0xF8] = None"
proof -
  have r: "readVarInt [0xF8] 0 = (Inl (InvalidVarint 0), 0)"
    by (simp add: readVarInt_def byte_at_def getVarIntSize_def)
  have "ParseUMPFull um [0xF8] = None"
    using ParseUMPFull_stuck[OF _ r] by simp
  moreover have "ParseUMPChunks um [[0xF8]] = Inr \<lparr>MediaHeader = None, Media = []\<rparr>"
    by (simp add: ump_eval)
  moreover have "stateMachineParser um \<lparr>buf = [0xF8], mediaAcc = [], firstMedia = False\<rparr> =
       (Inr None, \<lparr>buf = [0xF8], mediaAcc = [], firstMedia = False\<rparr>)"
    by (simp add: ump_eval)
  ultimately show ?thesis using r by simp
qed

text \<open>
  C8. Zero chunks and the empty buffer give the no-data error. A single empty chunk does
  not: the chunk is skipped and the call returns an empty result without error.
\<close>

theorem empty_input_results:
  "ParseUMPChunks um [] = Inl NoDataToParse
   \<and> ParseUMPFull um [] = Some (Inl NoDataToParse)
   \<and> ParseUMPChunks um [[]] = Inr \<lparr>MediaHeader = None, Media = []\<rparr>"
  by (simp add: ump_eval)


section \<open>Buffers that hold whole parts\<close>

lemma byte_at_embed:
  "i < length hb \<Longrightarrow> byte_at (pre @ hb @ suf) (length pre + i) = byte_at hb i"
  by (simp add: byte_at_def nth_append)

lemma readVarInt_switch_embed:
  assumes "start + sz \<le> length hb"
  shows "readVarInt_switch (pre @ hb @ suf) (length pre + start) first sz =
         readVarInt_switch hb start first sz"
proof -
  have b: "byte_at (pre @ hb @ suf) (length pre + start + i) = byte_at hb (start + i)"
    if "start + i < length hb" for i
    using byte_at_embed[OF that, of pre suf] by (simp add: add.assoc)
  show ?thesis
    using assms b[of 1] b[of 2] b[of 3] b[of 4]
    by (simp add: readVarInt_switch_def)
qed

lemma readVarInt_embed:
  assumes "readVarInt hb off = (Inr v, off')"
  shows "readVarInt (pre @ hb @ suf) (length pre + off) = (Inr v, length pre + off')"
proof -
  define first where "first = hb ! off"
  define sz where "sz = getVarIntSize first"
  from assms have lt: "off < length hb" and nz: "sz \<noteq> 0" and fit: "off + sz \<le> length hb"
    and sw: "readVarInt_switch hb off first sz = Inr v" and off': "off' = off + sz"
    by (auto simp: readVarInt_def byte_at_def Let_def first_def sz_def
        split: if_splits sum.splits)
  have "byte_at (pre @ hb @ suf) (length pre + off) = Inr first"
    using byte_at_embed[OF lt, of pre suf] lt by (simp add: byte_at_def first_def)
  moreover have "readVarInt_switch (pre @ hb @ suf) (length pre + off) first sz = Inr v"
    using readVarInt_switch_embed[OF fit, of pre suf first] sw by simp
  ultimately show ?thesis
    using lt nz fit off' by (simp add: readVarInt_def Let_def sz_def)
qed

lemma part_header_reads:
  assumes "part_header hb = Some (t, n)"
  obtains k where "readVarInt hb 0 = (Inr t, k)" "readVarInt hb k = (Inr n, length hb)"
    "0 < k" "k < length hb"
proof -
  from assms obtain k where k: "readVarInt hb 0 = (Inr t, k)"
    "readVarInt hb k = (Inr n, length hb)"
    by (auto simp: part_header_def split: prod.splits sum.splits if_splits)
  from readVarInt_advance[OF k(1)] readVarInt_advance[OF k(2)]
  have "0 < k" "k < length hb" by simp_all
  with k that show thesis by blast
qed

lemma smp_loop_step:
  assumes "offset < length data" "readVarInt data offset = (Inr t, o1)"
    "readVarInt data o1 = (Inr n, o2)" "o2 + n \<le> length data"
    "payload = take n (drop o2 data)"
  shows "smp_loop um data offset hdr acc fm =
    (if n = 0 then smp_loop um data o2 hdr acc fm
     else if t = 20 then
       (case um payload of
          Inl e \<Rightarrow> (Inl (FailedUnmarshal e), acc, fm)
        | Inr h \<Rightarrow> smp_loop um data (o2 + n) (Some h) acc fm)
     else if t = 21 then
       smp_loop um data (o2 + n) hdr
         (acc @ (if \<not> fm \<and> hd payload = 0 then tl payload else payload)) True
     else smp_loop um data (o2 + n) hdr acc fm)"
proof (cases "n = 0")
  case True
  with assms(1-3) show ?thesis by (subst smp_loop.simps) simp
next
  case False
  with assms(4,5) have "0 < length payload" by simp
  with False assms show ?thesis
    by (subst smp_loop.simps) (simp add: Let_def split: sum.splits)
qed

lemma smp_loop_part:
  assumes "part_header hb = Some (t, length p)"
  shows "smp_loop um (pre @ hb @ p @ suf) (length pre) hdr acc fm =
    (if p = [] then smp_loop um (pre @ hb @ p @ suf) (length pre + length hb) hdr acc fm
     else if t = 20 then
       (case um p of
          Inl e \<Rightarrow> (Inl (FailedUnmarshal e), acc, fm)
        | Inr h \<Rightarrow> smp_loop um (pre @ hb @ p @ suf) (length pre + length hb + length p)
                     (Some h) acc fm)
     else if t = 21 then
       smp_loop um (pre @ hb @ p @ suf) (length pre + length hb + length p) hdr
         (acc @ (if \<not> fm \<and> hd p = 0 then tl p else p)) True
     else smp_loop um (pre @ hb @ p @ suf) (length pre + length hb + length p) hdr acc fm)"
proof -
  from assms obtain k where k: "readVarInt hb 0 = (Inr t, k)"
    "readVarInt hb k = (Inr (length p), length hb)" "0 < k" "k < length hb"
    by (rule part_header_reads)
  define data where "data = pre @ hb @ p @ suf"
  have r1: "readVarInt data (length pre) = (Inr t, length pre + k)"
    using readVarInt_embed[OF k(1), of pre "p @ suf"] by (simp add: data_def)
  have r2: "readVarInt data (length pre + k) = (Inr (length p), length pre + length hb)"
    using readVarInt_embed[OF k(2), of pre "p @ suf"] by (simp add: data_def)
  have pl: "p = take (length p) (drop (length pre + length hb) data)"
    by (simp add: data_def)
  have "0 < length hb" using k(4) by (cases hb) simp_all
  then have lt: "length pre < length data" by (simp add: data_def)
  have fit: "length pre + length hb + length p \<le> length data" by (simp add: data_def)
  show ?thesis
    unfolding data_def[symmetric]
    using smp_loop_step[OF lt r1 r2 fit pl, of um hdr acc fm] pl by auto
qed


lemma first_media_rule_Nil: "first_media_rule seen [] = []"
  by (simp add: first_media_rule_def)

lemma first_media_rule_Cons:
  "first_media_rule seen (m # ms) =
     (if \<not> seen \<and> m \<noteq> [] \<and> hd m = 0 then tl m else m) @ concat ms"
  by (simp add: first_media_rule_def)

lemma first_media_rule_seen: "first_media_rule True ms = concat ms"
  by (cases ms) (simp_all add: first_media_rule_def)

lemma first_media_rule_append:
  "first_media_rule seen (ms1 @ ms2) =
     first_media_rule seen ms1 @ first_media_rule (seen \<or> ms1 \<noteq> []) ms2"
  by (cases ms1) (simp_all add: first_media_rule_Cons first_media_rule_Nil first_media_rule_seen)

lemma last_header_Nil: "last_header um prev [] = prev"
  by (simp add: last_header_def)

lemma last_header_Cons:
  "um p = Inr h \<Longrightarrow> last_header um prev (p # hs) = last_header um (Some h) hs"
  by (simp add: last_header_def)

lemma last_header_append:
  "last_header um prev (hs1 @ hs2) = last_header um (last_header um prev hs1) hs2"
  by (simp add: last_header_def)

lemma update_header_last_header:
  "list_all (\<lambda>p. case um p of Inl e \<Rightarrow> False | Inr h \<Rightarrow> True) hs \<Longrightarrow>
     update_header prev (last_header um None hs) = last_header um prev hs"
  by (cases hs rule: rev_cases)
     (auto simp: update_header_def last_header_def split: sum.splits)

lemma wire_Nil: "wire [] = []"
  by (simp add: wire_def)

lemma wire_Cons: "wire (q # ps) = fst q @ snd q @ wire ps"
  by (simp add: wire_def)

lemma well_framed_header:
  assumes "well_framed q"
  shows "part_header (fst q) = Some (part_type q, length (snd q))"
  using assms by (auto simp: well_framed_def part_type_def split: option.splits)

lemma well_framed_nonempty: "well_framed q \<Longrightarrow> fst q \<noteq> []"
  by (auto simp: well_framed_def part_header_def readVarInt_def split: option.splits)

lemma wire_empty_iff: "list_all well_framed ps \<Longrightarrow> wire ps = [] \<longleftrightarrow> ps = []"
  by (cases ps) (auto simp: wire_Nil wire_Cons dest: well_framed_nonempty)

lemma readVarInt_switch_prefix:
  assumes "start + sz \<le> length data"
  shows "readVarInt_switch (pre @ data) (length pre + start) first sz =
         readVarInt_switch data start first sz"
  using readVarInt_switch_embed[OF assms, of pre "[]" first] by simp

lemma readVarInt_prefix:
  "readVarInt (pre @ data) (length pre + off) =
     (case readVarInt data off of
        (Inl e, off') \<Rightarrow>
          (Inl (case e of InvalidVarint p \<Rightarrow> InvalidVarint (length pre + p) | _ \<Rightarrow> e),
           length pre + off')
      | (Inr v, off') \<Rightarrow> (Inr v, length pre + off'))"
proof (cases "off < length data")
  case False
  then show ?thesis by (simp add: readVarInt_def)
next
  case True
  define first where "first = data ! off"
  define sz where "sz = getVarIntSize first"
  have b: "byte_at (pre @ data) (length pre + off) = Inr first" "byte_at data off = Inr first"
    using True by (simp_all add: byte_at_def nth_append first_def)
  show ?thesis
  proof (cases "sz = 0 \<or> length data < off + sz")
    case True
    with \<open>off < length data\<close> b show ?thesis
      by (auto simp: readVarInt_def Let_def sz_def)
  next
    case False
    then have fit: "off + sz \<le> length data" and nz: "0 < sz" by simp_all
    from readVarInt_switch_in_range[OF fit nz, of first]
    obtain v where v: "readVarInt_switch data off first sz = Inr v" ..
    with readVarInt_switch_prefix[OF fit, of pre first]
    have "readVarInt_switch (pre @ data) (length pre + off) first sz = Inr v" by simp
    with v False \<open>off < length data\<close> b show ?thesis
      by (simp add: readVarInt_def Let_def sz_def)
  qed
qed

lemma smp_loop_prefix:
  "smp_loop um (pre @ data) (length pre + off) hdr acc fm =
     shift_result (length pre) (smp_loop um data off hdr acc fm)"
proof (induction "length data - off" arbitrary: off hdr acc fm rule: less_induct)
  case less
  note unf = smp_loop.simps[of um data off hdr acc fm]
    smp_loop.simps[of um "pre @ data" "length pre + off" hdr acc fm]
  show ?case
  proof (cases "length data \<le> off")
    case True
    then show ?thesis by (simp add: unf shift_result_def)
  next
    case False
    obtain r1 o1 where r1: "readVarInt data off = (r1, o1)" by (cases "readVarInt data off")
    show ?thesis
    proof (cases r1)
      case (Inl e)
      with False r1 show ?thesis
        by (simp add: unf shift_result_def readVarInt_prefix)
    next
      case (Inr t)
      note t = this
      from readVarInt_advance[of data off t o1] r1 t have o1: "off < o1" by simp
      obtain r2 o2 where r2: "readVarInt data o1 = (r2, o2)" by (cases "readVarInt data o1")
      show ?thesis
      proof (cases r2)
        case (Inl e)
        with False r1 r2 t show ?thesis
          by (simp add: unf shift_result_def readVarInt_prefix)
      next
        case (Inr n)
        note n = this
        from readVarInt_advance[of data o1 n o2] r2 n have o2: "o1 < o2" by simp
        have IH: "smp_loop um (pre @ data) (length pre + o2 + k) h a f =
            shift_result (length pre) (smp_loop um data (o2 + k) h a f)" for k h a f
          using less[of "o2 + k" h a f] o1 o2 False by (simp add: add.assoc)
        show ?thesis
        proof (cases "n = 0")
          case True
          with False r1 r2 t n IH[of 0 hdr acc fm] show ?thesis
            by (simp add: unf readVarInt_prefix)
        next
          case nz: False
          show ?thesis
          proof (cases "length data < o2 + n")
            case True
            with nz False r1 r2 t n show ?thesis
              by (simp add: unf readVarInt_prefix shift_result_def)
          next
            case fit: False
            from nz fit False r1 r2 t n IH[of n] show ?thesis
              by (simp add: unf readVarInt_prefix shift_result_def Let_def
                  split: sum.splits)
          qed
        qed
      qed
    qed
  qed
qed


lemma with_previous_header_twice:
  "with_previous_header prev (with_previous_header (Some h) r) = with_previous_header (Some h) r"
  by (auto simp: with_previous_header_def update_header_def split: prod.splits sum.splits option.splits)

lemma smp_loop_header:
  "smp_loop um data off hdr acc fm =
     with_previous_header hdr (smp_loop um data off None acc fm)"
proof (induction "length data - off" arbitrary: off hdr acc fm rule: less_induct)
  case less
  note unf = smp_loop.simps[of um data off hdr acc fm]
    smp_loop.simps[of um data off None acc fm]
  show ?case
  proof (cases "length data \<le> off")
    case True
    then show ?thesis by (simp add: unf with_previous_header_def update_header_def)
  next
    case False
    obtain r1 o1 where r1: "readVarInt data off = (r1, o1)" by (cases "readVarInt data off")
    show ?thesis
    proof (cases r1)
      case (Inl e)
      with False r1 show ?thesis
        by (simp add: unf with_previous_header_def update_header_def)
    next
      case (Inr t)
      note t = this
      from readVarInt_advance[of data off t o1] r1 t have o1: "off < o1" by simp
      obtain r2 o2 where r2: "readVarInt data o1 = (r2, o2)" by (cases "readVarInt data o1")
      show ?thesis
      proof (cases r2)
        case (Inl e)
        with False r1 r2 t show ?thesis
          by (simp add: unf with_previous_header_def update_header_def)
      next
        case (Inr n)
        note n = this
        from readVarInt_advance[of data o1 n o2] r2 n have o2: "o1 < o2" by simp
        have IH: "smp_loop um data (o2 + k) h a f =
            with_previous_header h (smp_loop um data (o2 + k) None a f)" for k h a f
          using less[of "o2 + k" h a f] o1 o2 False by simp
        show ?thesis
        proof (cases "n = 0")
          case True
          with False r1 r2 t n IH[of 0 hdr acc fm] show ?thesis
            by (simp add: unf)
        next
          case nz: False
          show ?thesis
          proof (cases "length data < o2 + n")
            case True
            with nz False r1 r2 t n show ?thesis
              by (simp add: unf with_previous_header_def update_header_def)
          next
            case fit: False
            show ?thesis
            proof (cases "t = 20")
              case True
              show ?thesis
              proof (cases "um (take n (drop o2 data))")
                case (Inl e)
                with True nz fit False r1 r2 t n show ?thesis
                  by (simp add: unf with_previous_header_def Let_def)
              next
                case (Inr h)
                with True nz fit False r1 r2 t n IH[of n "Some h" acc fm]
                  with_previous_header_twice[of hdr h "smp_loop um data (o2 + n) None acc fm"]
                show ?thesis
                  by (simp add: unf Let_def)
              qed
            next
              case nh: False
              with nz fit False r1 r2 t n IH[of n hdr] show ?thesis
                by (simp add: unf Let_def)
            qed
          qed
        qed
      qed
    qed
  qed
qed


lemma smp_loop_wire_tail:
  assumes "list_all well_framed ps" "decodable um ps"
  shows "smp_loop um (pre @ wire ps @ tail) (length pre) hdr acc fm =
    smp_loop um (pre @ wire ps @ tail) (length pre + length (wire ps))
      (last_header um hdr (header_payloads ps))
      (acc @ first_media_rule fm (media_payloads ps)) (fm \<or> media_payloads ps \<noteq> [])"
  using assms
proof (induction ps arbitrary: pre hdr acc fm)
  case Nil
  show ?case
    by (simp add: wire_Nil media_payloads_def header_payloads_def first_media_rule_Nil
        last_header_Nil)
next
  case (Cons q ps)
  obtain hb p where q: "q = (hb, p)" by (cases q)
  from Cons.prems have wf: "well_framed q" and wfs: "list_all well_framed ps" by simp_all
  from well_framed_header[OF wf] q
  have ph: "part_header hb = Some (part_type q, length p)" by simp
  have dec: "decodable um ps"
    using Cons.prems(2) by (auto simp: decodable_def header_payloads_def split: if_splits)
  define data where "data = pre @ hb @ p @ wire ps @ tail"
  have IH: "smp_loop um data (length pre + length hb + length p) h a f =
    smp_loop um data (length pre + length hb + length p + length (wire ps))
      (last_header um h (header_payloads ps))
      (a @ first_media_rule f (media_payloads ps)) (f \<or> media_payloads ps \<noteq> [])" for h a f
    using Cons.IH[OF wfs dec, of "pre @ hb @ p" h a f] by (simp add: add.assoc data_def)
  note step = smp_loop_part[OF ph, of um pre "wire ps @ tail" hdr acc fm, folded data_def]
  have w: "pre @ wire ((hb, p) # ps) @ tail = data"
    "length pre + length (wire ((hb, p) # ps)) =
       length pre + length hb + length p + length (wire ps)"
    by (simp_all add: wire_Cons data_def)
  have "smp_loop um data (length pre) hdr acc fm =
    smp_loop um data (length pre + length hb + length p + length (wire ps))
      (last_header um hdr (header_payloads ((hb, p) # ps)))
      (acc @ first_media_rule fm (media_payloads ((hb, p) # ps)))
      (fm \<or> media_payloads ((hb, p) # ps) \<noteq> [])"
  proof (cases "p = []")
    case True
    then have "media_payloads ((hb, p) # ps) = media_payloads ps"
      "header_payloads ((hb, p) # ps) = header_payloads ps"
      by (simp_all add: media_payloads_def header_payloads_def q)
    with True step IH[of hdr acc fm] show ?thesis by simp
  next
    case False
    consider (hdr) "part_type q = 20" | (media) "part_type q = 21"
      | (other) "part_type q \<noteq> 20" "part_type q \<noteq> 21" by blast
    then show ?thesis
    proof cases
      case hdr
      with False have hp: "header_payloads ((hb, p) # ps) = p # header_payloads ps"
        and mp: "media_payloads ((hb, p) # ps) = media_payloads ps"
        by (simp_all add: media_payloads_def header_payloads_def q)
      with Cons.prems(2) obtain h where h: "um p = Inr h"
        by (cases "um p") (auto simp: decodable_def q)
      from step False hdr h IH[of "Some h" acc fm]
        last_header_Cons[of um p h hdr "header_payloads ps"]
      show ?thesis
        by (simp add: q hp mp)
    next
      case media
      with False have hp: "header_payloads ((hb, p) # ps) = header_payloads ps"
        and mp: "media_payloads ((hb, p) # ps) = p # media_payloads ps"
        by (simp_all add: media_payloads_def header_payloads_def q)
      from step False media
        IH[of hdr "acc @ (if \<not> fm \<and> hd p = 0 then tl p else p)" True]
      show ?thesis
        by (simp add: q hp mp first_media_rule_Cons first_media_rule_seen)
    next
      case other
      with False have hp: "header_payloads ((hb, p) # ps) = header_payloads ps"
        and mp: "media_payloads ((hb, p) # ps) = media_payloads ps"
        by (simp_all add: media_payloads_def header_payloads_def q)
      from step False other IH[of hdr acc fm] show ?thesis
        by (simp add: q hp mp)
    qed
  qed
then show ?case by (simp add: q w)
qed

lemma stateMachineParser_wire_tail:
  assumes "list_all well_framed ps" "decodable um ps"
  shows "stateMachineParser um \<lparr>buf = wire ps @ tail, mediaAcc = acc, firstMedia = fm\<rparr> =
    resumed (wire ps @ tail) (last_header um None (header_payloads ps))
      (stateMachineParser um
         \<lparr>buf = tail, mediaAcc = acc @ first_media_rule fm (media_payloads ps),
          firstMedia = (fm \<or> media_payloads ps \<noteq> [])\<rparr>)"
proof -
  let ?h = "last_header um None (header_payloads ps)"
  let ?a = "acc @ first_media_rule fm (media_payloads ps)"
  let ?f = "fm \<or> media_payloads ps \<noteq> []"
  have "smp_loop um (wire ps @ tail) 0 None acc fm =
        smp_loop um (wire ps @ tail) (length (wire ps)) ?h ?a ?f"
    using smp_loop_wire_tail[OF assms, of "[]" tail None acc fm] by simp
  also have "\<dots> = shift_result (length (wire ps)) (smp_loop um tail 0 ?h ?a ?f)"
    using smp_loop_prefix[of um "wire ps" tail 0 ?h ?a ?f] by simp
  also have "\<dots> = shift_result (length (wire ps))
                     (with_previous_header ?h (smp_loop um tail 0 None ?a ?f))"
    using smp_loop_header[of um tail 0 ?h ?a ?f] by simp
  finally show ?thesis
    by (simp add: stateMachineParser_def resumed_def shift_result_def with_previous_header_def
        split: prod.splits sum.splits)
qed

lemma stateMachineParser_empty:
  "stateMachineParser um \<lparr>buf = [], mediaAcc = acc, firstMedia = fm\<rparr> =
     (Inr None, \<lparr>buf = [], mediaAcc = acc, firstMedia = fm\<rparr>)"
  by (simp add: stateMachineParser_def smp_loop.simps[of um "[]"])

lemma stateMachineParser_wire:
  assumes "list_all well_framed ps" "decodable um ps"
  shows "stateMachineParser um \<lparr>buf = wire ps, mediaAcc = acc, firstMedia = fm\<rparr> =
    (Inr (last_header um None (header_payloads ps)),
     \<lparr>buf = [], mediaAcc = acc @ first_media_rule fm (media_payloads ps),
      firstMedia = (fm \<or> media_payloads ps \<noteq> [])\<rparr>)"
  using stateMachineParser_wire_tail[OF assms, of "[]" acc fm]
  by (simp add: stateMachineParser_empty resumed_def update_header_def)

lemma media_payloads_append:
  "media_payloads (ps1 @ ps2) = media_payloads ps1 @ media_payloads ps2"
  by (simp add: media_payloads_def)

lemma header_payloads_append:
  "header_payloads (ps1 @ ps2) = header_payloads ps1 @ header_payloads ps2"
  by (simp add: header_payloads_def)

lemma decodable_append:
  "decodable um (ps1 @ ps2) \<longleftrightarrow> decodable um ps1 \<and> decodable um ps2"
  by (simp add: decodable_def header_payloads_append)

lemma chunks_loop_wire:
  assumes "list_all well_framed (concat pss)" "decodable um (concat pss)"
  shows "chunks_loop um (map wire pss) hdr \<lparr>buf = [], mediaAcc = acc, firstMedia = fm\<rparr> =
    Inr (last_header um hdr (header_payloads (concat pss)),
         \<lparr>buf = [], mediaAcc = acc @ first_media_rule fm (media_payloads (concat pss)),
          firstMedia = (fm \<or> media_payloads (concat pss) \<noteq> [])\<rparr>)"
  using assms
proof (induction pss arbitrary: hdr acc fm)
  case Nil
  show ?case
    by (simp add: media_payloads_def header_payloads_def first_media_rule_Nil last_header_Nil)
next
  case (Cons ps pss)
  from Cons.prems have wf: "list_all well_framed ps" "list_all well_framed (concat pss)"
    and dec: "decodable um ps" "decodable um (concat pss)"
    by (simp_all add: decodable_append)
  show ?case
  proof (cases "ps = []")
    case True
    with Cons.IH[OF wf(2) dec(2), of hdr acc fm] show ?thesis
      by (simp add: wire_Nil)
  next
    case False
    with wire_empty_iff[OF wf(1)] have ne: "wire ps \<noteq> []" by simp
    have hl: "update_header hdr (last_header um None (header_payloads ps)) =
              last_header um hdr (header_payloads ps)"
      using dec(1) by (simp add: decodable_def update_header_last_header)
    from ne stateMachineParser_wire[OF wf(1) dec(1), of acc fm]
      Cons.IH[OF wf(2) dec(2), of "last_header um hdr (header_payloads ps)"
        "acc @ first_media_rule fm (media_payloads ps)" "fm \<or> media_payloads ps \<noteq> []"]
    show ?thesis
      by (simp add: hl media_payloads_append header_payloads_append last_header_append
          first_media_rule_append)
  qed
qed

lemma ParseUMPChunks_wire:
  assumes "pss \<noteq> []" "list_all well_framed (concat pss)" "decodable um (concat pss)"
  shows "ParseUMPChunks um (map wire pss) =
    Inr \<lparr>MediaHeader = last_header um None (header_payloads (concat pss)),
         Media = first_media_rule False (media_payloads (concat pss))\<rparr>"
  using assms(1) chunks_loop_wire[OF assms(2,3), of None "[]" False]
  by (simp add: ParseUMPChunks_def)

lemma ParseUMPFull_wire:
  assumes "ps \<noteq> []" "list_all well_framed ps" "decodable um ps"
  shows "ParseUMPFull um (wire ps) =
    Some (Inr \<lparr>MediaHeader = last_header um None (header_payloads ps),
               Media = first_media_rule False (media_payloads ps)\<rparr>)"
proof -
  from assms(1) wire_empty_iff[OF assms(2)] have ne: "wire ps \<noteq> []" by simp
  have "full_loop um None \<lparr>buf = wire ps, mediaAcc = [], firstMedia = False\<rparr> =
    Some (Inr (last_header um None (header_payloads ps),
      \<lparr>buf = [], mediaAcc = first_media_rule False (media_payloads ps),
       firstMedia = (media_payloads ps \<noteq> [])\<rparr>))"
    apply (subst full_loop.simps)
    apply (simp add: ne stateMachineParser_wire[OF assms(2,3)])
    apply (subst full_loop.simps)
    using assms(3) apply (simp add: decodable_def update_header_last_header)
    done
  with ne show ?thesis by (simp add: ParseUMPFull_def)
qed


lemma empty_payload_parts:
  assumes "list_all (\<lambda>z. snd z = []) zs"
  shows "media_payloads (zs @ ps) = media_payloads ps"
    and "header_payloads (zs @ ps) = header_payloads ps"
  using assms
  by (induction zs) (simp_all add: media_payloads_def header_payloads_def)

lemmas framing_eval =
  well_framed_def part_type_def part_header_def wire_def media_payloads_def
  header_payloads_def first_media_rule_def decodable_def
  readVarInt_def byte_at_def bindE_def getVarIntSize_def readVarInt_switch_def

text \<open>
  C5. The first-media rule. When the buffer of a call holds whole parts, the state machine
  appends to the accumulator what the rule says, from whatever accumulator and flag the
  session has reached: with the flag unset, the first media payload loses its leading zero
  byte if it has one, and every later media payload is appended in full, also when it
  starts with a zero byte; with the flag set nothing is stripped. The flag is set afterwards
  exactly when it was set before or a media part was processed, whether or not a byte was
  stripped. When any further bytes \<open>tail\<close> follow the whole parts, the call ends with the
  accumulator and the flag of a call on \<open>tail\<close> alone that starts from the accumulator
  and the flag the rule gives for the parts. Over a whole chunked session (chunks of whole
  parts) the media returned is the rule applied, from the unset flag, to all media payloads
  in order.
\<close>

theorem first_media_leading_zero_rule:
  "(list_all well_framed ps \<and> decodable um ps \<longrightarrow>
      snd (stateMachineParser um \<lparr>buf = wire ps, mediaAcc = acc, firstMedia = fm\<rparr>) =
        \<lparr>buf = [], mediaAcc = acc @ first_media_rule fm (media_payloads ps),
         firstMedia = (fm \<or> media_payloads ps \<noteq> [])\<rparr>
      \<and> mediaAcc (snd (stateMachineParser um
                          \<lparr>buf = wire ps @ tail, mediaAcc = acc, firstMedia = fm\<rparr>)) =
        mediaAcc (snd (stateMachineParser um
                          \<lparr>buf = tail, mediaAcc = acc @ first_media_rule fm (media_payloads ps),
                           firstMedia = (fm \<or> media_payloads ps \<noteq> [])\<rparr>))
      \<and> firstMedia (snd (stateMachineParser um
                          \<lparr>buf = wire ps @ tail, mediaAcc = acc, firstMedia = fm\<rparr>)) =
        firstMedia (snd (stateMachineParser um
                          \<lparr>buf = tail, mediaAcc = acc @ first_media_rule fm (media_payloads ps),
                           firstMedia = (fm \<or> media_payloads ps \<noteq> [])\<rparr>)))
   \<and> (pss \<noteq> [] \<and> list_all well_framed (concat pss) \<and> decodable um (concat pss) \<longrightarrow>
      (\<exists>h. ParseUMPChunks um (map wire pss) =
         Inr \<lparr>MediaHeader = h, Media = first_media_rule False (media_payloads (concat pss))\<rparr>))"
proof (intro conjI impI)
  assume a: "list_all well_framed ps \<and> decodable um ps"
  then show "snd (stateMachineParser um \<lparr>buf = wire ps, mediaAcc = acc, firstMedia = fm\<rparr>) =
        \<lparr>buf = [], mediaAcc = acc @ first_media_rule fm (media_payloads ps),
         firstMedia = (fm \<or> media_payloads ps \<noteq> [])\<rparr>"
    using stateMachineParser_wire[of ps um acc fm] by simp
  let ?r = "stateMachineParser um
              \<lparr>buf = tail, mediaAcc = acc @ first_media_rule fm (media_payloads ps),
               firstMedia = (fm \<or> media_payloads ps \<noteq> [])\<rparr>"
  from a have t: "stateMachineParser um \<lparr>buf = wire ps @ tail, mediaAcc = acc, firstMedia = fm\<rparr> =
      resumed (wire ps @ tail) (last_header um None (header_payloads ps)) ?r"
    using stateMachineParser_wire_tail[of ps um tail acc fm] by simp
  show "mediaAcc (snd (stateMachineParser um
                          \<lparr>buf = wire ps @ tail, mediaAcc = acc, firstMedia = fm\<rparr>)) =
        mediaAcc (snd ?r)"
    unfolding t by (simp add: resumed_def split: prod.splits sum.splits)
  show "firstMedia (snd (stateMachineParser um
                          \<lparr>buf = wire ps @ tail, mediaAcc = acc, firstMedia = fm\<rparr>)) =
        firstMedia (snd ?r)"
    unfolding t by (simp add: resumed_def split: prod.splits sum.splits)
next
  assume "pss \<noteq> [] \<and> list_all well_framed (concat pss) \<and> decodable um (concat pss)"
  then show "\<exists>h. ParseUMPChunks um (map wire pss) =
         Inr \<lparr>MediaHeader = h, Media = first_media_rule False (media_payloads (concat pss))\<rparr>"
    using ParseUMPChunks_wire[of pss um] by simp
qed

theorem first_media_leading_zero_rule_witness:
  "list_all well_framed [([0x15, 0x03], [0x00, 0x41, 0x42]), ([0x15, 0x02], [0x00, 0x43])]
   \<and> decodable (\<lambda>p. Inl ''undecodable'')
        [([0x15, 0x03], [0x00, 0x41, 0x42]), ([0x15, 0x02], [0x00, 0x43])]
   \<and> snd (stateMachineParser (\<lambda>p. Inl ''undecodable'')
        \<lparr>buf = [0x15, 0x03, 0x00, 0x41, 0x42, 0x15, 0x02, 0x00, 0x43], mediaAcc = [],
         firstMedia = False\<rparr>) =
       \<lparr>buf = [], mediaAcc = [0x41, 0x42, 0x00, 0x43], firstMedia = True\<rparr>
   \<and> snd (stateMachineParser (\<lambda>p. Inl ''undecodable'')
        \<lparr>buf = [0x15, 0x02, 0x00, 0x43], mediaAcc = [0x41, 0x42], firstMedia = True\<rparr>) =
       \<lparr>buf = [], mediaAcc = [0x41, 0x42, 0x00, 0x43], firstMedia = True\<rparr>
   \<and> mediaAcc (snd (stateMachineParser (\<lambda>p. Inl ''undecodable'')
        \<lparr>buf = [0x15, 0x03, 0x00, 0x41, 0x42] @ [0x15, 0x02, 0x00], mediaAcc = [],
         firstMedia = False\<rparr>)) = [0x41, 0x42]
   \<and> firstMedia (snd (stateMachineParser (\<lambda>p. Inl ''undecodable'')
        \<lparr>buf = [0x15, 0x03, 0x00, 0x41, 0x42] @ [0x15, 0x02, 0x00], mediaAcc = [],
         firstMedia = False\<rparr>))
   \<and> (\<exists>h. ParseUMPChunks (\<lambda>p. Inl ''undecodable'')
          [[0x15, 0x03, 0x00, 0x41, 0x42], [0x15, 0x02, 0x00, 0x43]] =
        Inr \<lparr>MediaHeader = h, Media = [0x41, 0x42, 0x00, 0x43]\<rparr>)"
proof -
  let ?um = "(\<lambda>p. Inl ''undecodable'') :: unmarshal"
  have tail: "stateMachineParser ?um
      \<lparr>buf = [0x15, 0x02, 0x00], mediaAcc = [0x41, 0x42], firstMedia = True\<rparr> =
      (Inr None, \<lparr>buf = [0x00], mediaAcc = [0x41, 0x42], firstMedia = True\<rparr>)"
    by (simp add: ump_eval)
  show ?thesis
  using
    first_media_leading_zero_rule[where um = ?um and acc = "[]"
      and fm = False and tail = "[]"
      and ps = "[([0x15, 0x03], [0x00, 0x41, 0x42]), ([0x15, 0x02], [0x00, 0x43])]"
      and pss = "[[([0x15, 0x03], [0x00, 0x41, 0x42])], [([0x15, 0x02], [0x00, 0x43])]]"]
    first_media_leading_zero_rule[where um = ?um
      and acc = "[0x41, 0x42]" and fm = True and tail = "[]"
      and ps = "[([0x15, 0x02], [0x00, 0x43])]" and pss = "[]"]
    first_media_leading_zero_rule[where um = ?um and acc = "[]"
      and fm = False and tail = "[0x15, 0x02, 0x00]"
      and ps = "[([0x15, 0x03], [0x00, 0x41, 0x42])]" and pss = "[]"]
    tail
  by (simp add: framing_eval)
qed

lemma stateMachineParser_stall:
  assumes "pending_after tail = Some rest"
  shows "stateMachineParser um \<lparr>buf = tail, mediaAcc = acc, firstMedia = fm\<rparr> =
           (Inr None, \<lparr>buf = rest, mediaAcc = acc, firstMedia = fm\<rparr>)"
proof -
  obtain r1 k where r1: "readVarInt tail 0 = (r1, k)" by (cases "readVarInt tail 0")
  show ?thesis
  proof (cases r1)
    case (Inl e)
    with r1 assms have "rest = tail" by (simp add: pending_after_def)
    with Inl r1 stateMachineParser_first_read_fails[of tail e k um acc fm] show ?thesis
      by simp
  next
    case (Inr t)
    note t = this
    from readVarInt_advance[of tail 0 t k] r1 t have ne: "0 < length tail" by auto
    note unf = smp_loop.simps[of um tail 0 None acc fm]
    obtain r2 m where r2: "readVarInt tail k = (r2, m)" by (cases "readVarInt tail k")
    show ?thesis
    proof (cases r2)
      case (Inl e)
      with r2 readVarInt_failure_keeps_cursor[of tail k e m] have mk: "m = k" by simp
      from Inl r1 r2 t assms have rest: "rest = drop k tail" by (simp add: pending_after_def)
      have "stateMachineParser um \<lparr>buf = tail, mediaAcc = acc, firstMedia = fm\<rparr> =
           (Inr None, \<lparr>buf = drop k tail, mediaAcc = acc, firstMedia = fm\<rparr>)"
        using Inl r1 r2 t ne mk by (simp add: stateMachineParser_def unf)
      with rest show ?thesis by simp
    next
      case (Inr n)
      from Inr r1 r2 t assms have rest: "rest = drop m tail" and n: "n \<noteq> 0"
        and short: "length tail < m + n"
        by (simp_all add: pending_after_def split: if_splits)
      have "stateMachineParser um \<lparr>buf = tail, mediaAcc = acc, firstMedia = fm\<rparr> =
           (Inr None, \<lparr>buf = drop m tail, mediaAcc = acc, firstMedia = fm\<rparr>)"
        using Inr r1 r2 t ne n short by (simp add: stateMachineParser_def unf)
      with rest show ?thesis by simp
    qed
  qed
qed

lemma stateMachineParser_wire_stall:
  assumes "list_all well_framed ps" "decodable um ps" "pending_after tail = Some rest"
  shows "stateMachineParser um \<lparr>buf = wire ps @ tail, mediaAcc = acc, firstMedia = fm\<rparr> =
    (Inr (last_header um None (header_payloads ps)),
     \<lparr>buf = rest, mediaAcc = acc @ first_media_rule fm (media_payloads ps),
      firstMedia = (fm \<or> media_payloads ps \<noteq> [])\<rparr>)"
  using stateMachineParser_wire_tail[OF assms(1,2), of tail acc fm]
    stateMachineParser_stall[OF assms(3), of um]
  by (simp add: resumed_def update_header_def)

lemma chunks_loop_session:
  assumes "session_pending pending steps = Some final"
    and "decodable um (concat (map snd steps))"
  shows "chunks_loop um (map fst steps) hdr
           \<lparr>buf = pending, mediaAcc = acc, firstMedia = fm\<rparr> =
    Inr (last_header um hdr (header_payloads (concat (map snd steps))),
         \<lparr>buf = final,
          mediaAcc = acc @ first_media_rule fm (media_payloads (concat (map snd steps))),
          firstMedia = (fm \<or> media_payloads (concat (map snd steps)) \<noteq> [])\<rparr>)"
  using assms
proof (induction steps arbitrary: pending hdr acc fm)
  case Nil
  then show ?case
    by (simp add: media_payloads_def header_payloads_def first_media_rule_Nil last_header_Nil)
next
  case (Cons st steps)
  obtain chunk ps where st: "st = (chunk, ps)" by (cases st)
  from Cons.prems(2) have dec: "decodable um ps" "decodable um (concat (map snd steps))"
    by (simp_all add: st decodable_append)
  show ?case
  proof (cases "chunk = []")
    case True
    with Cons.prems(1) have ps: "ps = []" and sp: "session_pending pending steps = Some final"
      by (simp_all add: st split: if_splits)
    from Cons.IH[OF sp dec(2), of hdr acc fm] True ps show ?thesis
      by (simp add: st)
  next
    case False
    from Cons.prems(1) False obtain rest where
      wf: "list_all well_framed ps"
      and pre: "take (length (wire ps)) (pending @ chunk) = wire ps"
      and pa: "pending_after (drop (length (wire ps)) (pending @ chunk)) = Some rest"
      and sp: "session_pending rest steps = Some final"
      by (auto simp: st split: if_splits option.splits)
    have whole: "pending @ chunk = wire ps @ drop (length (wire ps)) (pending @ chunk)"
      using pre append_take_drop_id[of "length (wire ps)" "pending @ chunk"] by simp
    have hl: "update_header hdr (last_header um None (header_payloads ps)) =
              last_header um hdr (header_payloads ps)"
      using dec(1) by (simp add: decodable_def update_header_last_header)
    have call: "stateMachineParser um \<lparr>buf = pending @ chunk, mediaAcc = acc, firstMedia = fm\<rparr> =
      (Inr (last_header um None (header_payloads ps)),
       \<lparr>buf = rest, mediaAcc = acc @ first_media_rule fm (media_payloads ps),
        firstMedia = (fm \<or> media_payloads ps \<noteq> [])\<rparr>)"
      using stateMachineParser_wire_stall[OF wf dec(1) pa, of acc fm] whole by simp
    from False call
      Cons.IH[OF sp dec(2), of "last_header um hdr (header_payloads ps)"
        "acc @ first_media_rule fm (media_payloads ps)" "fm \<or> media_payloads ps \<noteq> []"]
    show ?thesis
      by (simp add: st hl media_payloads_append header_payloads_append last_header_append
          first_media_rule_append)
  qed
qed

lemma full_loop_calls:
  assumes "whole_buffer_calls data pss" and "decodable um (concat pss)"
  shows "full_loop um hdr \<lparr>buf = data, mediaAcc = acc, firstMedia = fm\<rparr> =
    Some (Inr (last_header um hdr (header_payloads (concat pss)),
         \<lparr>buf = [], mediaAcc = acc @ first_media_rule fm (media_payloads (concat pss)),
          firstMedia = (fm \<or> media_payloads (concat pss) \<noteq> [])\<rparr>))"
  using assms
proof (induction pss arbitrary: data hdr acc fm)
  case Nil
  then show ?case
    by (subst full_loop.simps)
       (simp add: media_payloads_def header_payloads_def first_media_rule_Nil last_header_Nil)
next
  case (Cons ps pss)
  from Cons.prems(2) have dec: "decodable um ps" "decodable um (concat pss)"
    by (simp_all add: decodable_append)
  from Cons.prems(1) obtain rest where ne: "data \<noteq> []"
    and wf: "list_all well_framed ps"
    and pre: "take (length (wire ps)) data = wire ps"
    and pa: "pending_after (drop (length (wire ps)) data) = Some rest"
    and later: "whole_buffer_calls rest pss"
    by (auto split: option.splits)
  have whole: "data = wire ps @ drop (length (wire ps)) data"
    using pre append_take_drop_id[of "length (wire ps)" data] by simp
  have hl: "update_header hdr (last_header um None (header_payloads ps)) =
            last_header um hdr (header_payloads ps)"
    using dec(1) by (simp add: decodable_def update_header_last_header)
  have call: "stateMachineParser um \<lparr>buf = data, mediaAcc = acc, firstMedia = fm\<rparr> =
    (Inr (last_header um None (header_payloads ps)),
     \<lparr>buf = rest, mediaAcc = acc @ first_media_rule fm (media_payloads ps),
      firstMedia = (fm \<or> media_payloads ps \<noteq> [])\<rparr>)"
    using stateMachineParser_wire_stall[OF wf dec(1) pa, of acc fm] whole by simp
  from ne call
    Cons.IH[OF later dec(2), of "last_header um hdr (header_payloads ps)"
      "acc @ first_media_rule fm (media_payloads ps)" "fm \<or> media_payloads ps \<noteq> []"]
  show ?case
    by (subst full_loop.simps)
       (simp add: hl media_payloads_append header_payloads_append last_header_append
          first_media_rule_append)
qed


lemma ParseUMPChunks_session:
  assumes "steps \<noteq> []" "session_pending [] steps = Some final"
    and "decodable um (concat (map snd steps))"
  shows "ParseUMPChunks um (map fst steps) =
    Inr \<lparr>MediaHeader = last_header um None (header_payloads (concat (map snd steps))),
         Media = first_media_rule False (media_payloads (concat (map snd steps)))\<rparr>"
  using assms(1) chunks_loop_session[OF assms(2,3), of None "[]" False]
  by (simp add: ParseUMPChunks_def)

lemma ParseUMPFull_calls:
  assumes "pss \<noteq> []" "whole_buffer_calls data pss" and "decodable um (concat pss)"
  shows "ParseUMPFull um data =
    Some (Inr \<lparr>MediaHeader = last_header um None (header_payloads (concat pss)),
               Media = first_media_rule False (media_payloads (concat pss))\<rparr>)"
proof -
  from assms(1,2) have "data \<noteq> []" by (cases pss) simp_all
  with full_loop_calls[OF assms(2,3), of None "[]" False] show ?thesis
    by (simp add: ParseUMPFull_def)
qed

lemmas session_eval = pending_after_def framing_eval

text \<open>
  C9. Last writer wins. When type-20 parts are processed in a decode and the decoder accepts
  them, the header record of the result is exactly the record decoded from the last of
  them: nothing of an earlier record is kept. This holds for the chunked entry point over
  any session of calls, whether a call leaves bytes pending in the buffer or not and
  whether a later call returns a header or not, and for the whole-buffer entry point over
  the calls of its loop; in particular for chunks of whole parts and for a buffer of whole
  parts.
\<close>

theorem last_header_wins:
  "(session_pending [] steps \<noteq> None \<and> decodable um (concat (map snd steps))
      \<and> header_payloads (concat (map snd steps)) \<noteq> []
      \<and> um (last (header_payloads (concat (map snd steps)))) = Inr h \<longrightarrow>
      (\<exists>m. ParseUMPChunks um (map fst steps) = Inr \<lparr>MediaHeader = Some h, Media = m\<rparr>))
   \<and> (whole_buffer_calls data calls \<and> decodable um (concat calls)
      \<and> header_payloads (concat calls) \<noteq> []
      \<and> um (last (header_payloads (concat calls))) = Inr h \<longrightarrow>
      (\<exists>m. ParseUMPFull um data = Some (Inr \<lparr>MediaHeader = Some h, Media = m\<rparr>)))
   \<and> (pss \<noteq> [] \<and> list_all well_framed (concat pss) \<and> decodable um (concat pss)
      \<and> header_payloads (concat pss) \<noteq> []
      \<and> um (last (header_payloads (concat pss))) = Inr h \<longrightarrow>
      (\<exists>m. ParseUMPChunks um (map wire pss) = Inr \<lparr>MediaHeader = Some h, Media = m\<rparr>))
   \<and> (list_all well_framed ps \<and> decodable um ps \<and> header_payloads ps \<noteq> []
      \<and> um (last (header_payloads ps)) = Inr h \<longrightarrow>
      (\<exists>m. ParseUMPFull um (wire ps) = Some (Inr \<lparr>MediaHeader = Some h, Media = m\<rparr>)))"
proof (intro conjI impI)
  assume a: "session_pending [] steps \<noteq> None \<and> decodable um (concat (map snd steps))
      \<and> header_payloads (concat (map snd steps)) \<noteq> []
      \<and> um (last (header_payloads (concat (map snd steps)))) = Inr h"
  then obtain final where f: "session_pending [] steps = Some final" by auto
  from a have lh: "last_header um None (header_payloads (concat (map snd steps))) = Some h"
    by (simp add: last_header_def)
  from a have ne: "steps \<noteq> []" by (auto simp: header_payloads_def)
  from a have dec: "decodable um (concat (map snd steps))" by simp
  from ParseUMPChunks_session[OF ne f dec] lh
  show "\<exists>m. ParseUMPChunks um (map fst steps) = Inr \<lparr>MediaHeader = Some h, Media = m\<rparr>"
    by simp
next
  assume a: "whole_buffer_calls data calls \<and> decodable um (concat calls)
      \<and> header_payloads (concat calls) \<noteq> []
      \<and> um (last (header_payloads (concat calls))) = Inr h"
  then have lh: "last_header um None (header_payloads (concat calls)) = Some h"
    by (simp add: last_header_def)
  from a have ne: "calls \<noteq> []" by (auto simp: header_payloads_def)
  from a have w: "whole_buffer_calls data calls" and dec: "decodable um (concat calls)"
    by simp_all
  from ParseUMPFull_calls[OF ne w dec] lh
  show "\<exists>m. ParseUMPFull um data = Some (Inr \<lparr>MediaHeader = Some h, Media = m\<rparr>)"
    by simp
next
  assume a: "pss \<noteq> [] \<and> list_all well_framed (concat pss) \<and> decodable um (concat pss)
      \<and> header_payloads (concat pss) \<noteq> []
      \<and> um (last (header_payloads (concat pss))) = Inr h"
  then have "last_header um None (header_payloads (concat pss)) = Some h"
    by (simp add: last_header_def)
  with a show "\<exists>m. ParseUMPChunks um (map wire pss) = Inr \<lparr>MediaHeader = Some h, Media = m\<rparr>"
    using ParseUMPChunks_wire[of pss um] by simp
next
  assume a: "list_all well_framed ps \<and> decodable um ps \<and> header_payloads ps \<noteq> []
      \<and> um (last (header_payloads ps)) = Inr h"
  then have "last_header um None (header_payloads ps) = Some h"
    by (simp add: last_header_def)
  moreover from a have "ps \<noteq> []" by (auto simp: header_payloads_def)
  ultimately show "\<exists>m. ParseUMPFull um (wire ps) = Some (Inr \<lparr>MediaHeader = Some h, Media = m\<rparr>)"
    using a ParseUMPFull_wire[of ps um] by simp
qed

theorem last_header_wins_witness:
  "session_pending []
     [([0x14, 0x01, 0x07], [([0x14, 0x01], [0x07])]),
      ([0x14, 0x01, 0x08, 0x15, 0x02, 0x41], [([0x14, 0x01], [0x08])]),
      ([0x00], [([0x41, 0x00], [])])] = Some []
   \<and> (\<exists>m. ParseUMPChunks
          (\<lambda>p. Inr \<lparr>VideoID = (if hd p = 7 then ''first'' else ''second''),
                     ITag = (if hd p = 7 then 18 else 140), Lmt = of_nat (length p)\<rparr>)
          [[0x14, 0x01, 0x07], [0x14, 0x01, 0x08, 0x15, 0x02, 0x41]] =
        Inr \<lparr>MediaHeader = Some \<lparr>VideoID = ''second'', ITag = 140, Lmt = 1\<rparr>, Media = m\<rparr>)
   \<and> (\<exists>m. ParseUMPChunks
          (\<lambda>p. Inr \<lparr>VideoID = (if hd p = 7 then ''first'' else ''second''),
                     ITag = (if hd p = 7 then 18 else 140), Lmt = of_nat (length p)\<rparr>)
          [[0x14, 0x01, 0x07], [0x14, 0x01, 0x08, 0x15, 0x02, 0x41], [0x00]] =
        Inr \<lparr>MediaHeader = Some \<lparr>VideoID = ''second'', ITag = 140, Lmt = 1\<rparr>, Media = m\<rparr>)
   \<and> whole_buffer_calls [0x14, 0x01, 0x07, 0x15, 0x05, 0x01, 0x00]
         [[([0x14, 0x01], [0x07])], [([0x01, 0x00], [])]]
   \<and> (\<exists>m. ParseUMPFull
          (\<lambda>p. Inr \<lparr>VideoID = (if hd p = 7 then ''first'' else ''second''),
                     ITag = (if hd p = 7 then 18 else 140), Lmt = of_nat (length p)\<rparr>)
          [0x14, 0x01, 0x07, 0x15, 0x05, 0x01, 0x00] =
        Some (Inr \<lparr>MediaHeader = Some \<lparr>VideoID = ''first'', ITag = 18, Lmt = 1\<rparr>,
                   Media = m\<rparr>))
   \<and> (\<exists>m. ParseUMPChunks
          (\<lambda>p. Inr \<lparr>VideoID = (if hd p = 7 then ''first'' else ''second''),
                     ITag = (if hd p = 7 then 18 else 140), Lmt = of_nat (length p)\<rparr>)
          [[0x14, 0x02, 0x07, 0x09], [0x14, 0x03, 0x02, 0x08, 0x07]] =
        Inr \<lparr>MediaHeader = Some \<lparr>VideoID = ''second'', ITag = 140, Lmt = 3\<rparr>, Media = m\<rparr>)
   \<and> (\<exists>m. ParseUMPFull
          (\<lambda>p. Inr \<lparr>VideoID = (if hd p = 7 then ''first'' else ''second''),
                     ITag = (if hd p = 7 then 18 else 140), Lmt = of_nat (length p)\<rparr>)
          [0x14, 0x02, 0x07, 0x09, 0x14, 0x03, 0x02, 0x08, 0x07] =
        Some (Inr \<lparr>MediaHeader = Some \<lparr>VideoID = ''second'', ITag = 140, Lmt = 3\<rparr>,
                   Media = m\<rparr>))"
proof -
  let ?um = "\<lambda>p :: byte list. Inr \<lparr>VideoID = (if hd p = 7 then ''first'' else ''second''),
                     ITag = (if hd p = 7 then 18 else 140), Lmt = of_nat (length p)\<rparr>
                   :: string + UMPMediaHeader"
  let ?s1 = "([0x14, 0x01, 0x07], [([0x14, 0x01], [0x07])]) :: byte list \<times> part list"
  let ?s2 = "([0x14, 0x01, 0x08, 0x15, 0x02, 0x41], [([0x14, 0x01], [0x08])])
               :: byte list \<times> part list"
  let ?s3 = "([0x00], [([0x41, 0x00], [])]) :: byte list \<times> part list"
  let ?a = "([0x14, 0x02], [0x07, 0x09]) :: part"
  let ?b = "([0x14, 0x03], [0x02, 0x08, 0x07]) :: part"
  let ?h1 = "\<lparr>VideoID = ''first'', ITag = 18, Lmt = 1\<rparr>"
  let ?h2 = "\<lparr>VideoID = ''second'', ITag = 140, Lmt = 1\<rparr>"
  let ?h3 = "\<lparr>VideoID = ''second'', ITag = 140, Lmt = 3\<rparr>"
  have sp: "session_pending [] [?s1, ?s2] = Some [0x41]"
    "session_pending [] [?s1, ?s2, ?s3] = Some []"
    by (simp_all add: session_eval)
  have wb: "whole_buffer_calls [0x14, 0x01, 0x07, 0x15, 0x05, 0x01, 0x00]
         [[([0x14, 0x01], [0x07])], [([0x01, 0x00], [])]]"
    by (simp add: session_eval)
  show ?thesis
    using sp wb
      last_header_wins[where um = ?um and steps = "[?s1, ?s2]" and h = ?h2
        and data = "[]" and calls = "[]" and pss = "[]" and ps = "[]"]
      last_header_wins[where um = ?um and steps = "[?s1, ?s2, ?s3]" and h = ?h2
        and data = "[]" and calls = "[]" and pss = "[]" and ps = "[]"]
      last_header_wins[where um = ?um and steps = "[]" and h = ?h1
        and data = "[0x14, 0x01, 0x07, 0x15, 0x05, 0x01, 0x00]"
        and calls = "[[([0x14, 0x01], [0x07])], [([0x01, 0x00], [])]]"
        and pss = "[]" and ps = "[]"]
      last_header_wins[where um = ?um and steps = "[]" and h = ?h3
        and data = "[]" and calls = "[]" and pss = "[[?a], [?b]]" and ps = "[?a, ?b]"]
    by (simp add: session_eval)
qed

text \<open>
  C10. Type-21 parts of declared length zero at the front of the buffer change nothing,
  whatever bytes \<open>tail\<close> follow them: the call gives the header, the accumulator, the
  flag and the remaining buffer of the call on \<open>tail\<close> alone (when that call fails with a
  decoding error, the same error, and the buffer is left whole). So with the flag unset, a
  first non-empty media payload after them that starts with a zero byte is still stripped
  of it, and the flag is set only then.
\<close>

theorem zero_length_media_part_is_skipped:
  assumes "list_all well_framed zs"
    and "list_all (\<lambda>z. part_type z = 21 \<and> snd z = []) zs"
  shows "stateMachineParser um \<lparr>buf = wire zs @ tail, mediaAcc = acc, firstMedia = fm\<rparr> =
           (case stateMachineParser um \<lparr>buf = tail, mediaAcc = acc, firstMedia = fm\<rparr> of
              (Inl e, s') \<Rightarrow> (Inl e, s'\<lparr>buf := wire zs @ tail\<rparr>)
            | (Inr h, s') \<Rightarrow> (Inr h, s'))
    \<and> (\<forall>hb m ps. well_framed (hb, 0 # m) \<and> part_type (hb, 0 # m) = 21
                   \<and> list_all well_framed ps \<and> decodable um ps \<longrightarrow>
          snd (stateMachineParser um
                 \<lparr>buf = wire (zs @ (hb, 0 # m) # ps), mediaAcc = acc, firstMedia = False\<rparr>) =
            \<lparr>buf = [], mediaAcc = acc @ m @ concat (media_payloads ps),
             firstMedia = True\<rparr>)"
proof -
  from assms(2) have e: "list_all (\<lambda>z. snd z = []) zs"
    by (induction zs) simp_all
  have mp: "media_payloads zs = []" "header_payloads zs = []"
    using empty_payload_parts[OF e, of "[]"]
    by (simp_all add: media_payloads_def header_payloads_def)
  then have dz: "decodable um zs" by (simp add: decodable_def)
  have first: "stateMachineParser um \<lparr>buf = wire zs @ tail, mediaAcc = acc, firstMedia = fm\<rparr> =
           (case stateMachineParser um \<lparr>buf = tail, mediaAcc = acc, firstMedia = fm\<rparr> of
              (Inl e, s') \<Rightarrow> (Inl e, s'\<lparr>buf := wire zs @ tail\<rparr>)
            | (Inr h, s') \<Rightarrow> (Inr h, s'))"
    using stateMachineParser_wire_tail[OF assms(1) dz, of tail acc fm] mp
    by (simp add: resumed_def first_media_rule_Nil last_header_Nil update_header_def
        split: prod.splits sum.splits option.splits)
  have second: "snd (stateMachineParser um
                 \<lparr>buf = wire (zs @ (hb, 0 # m) # ps), mediaAcc = acc, firstMedia = False\<rparr>) =
            \<lparr>buf = [], mediaAcc = acc @ m @ concat (media_payloads ps),
             firstMedia = True\<rparr>"
    if h: "well_framed (hb, 0 # m) \<and> part_type (hb, 0 # m) = 21
           \<and> list_all well_framed ps \<and> decodable um ps" for hb m ps
  proof -
    let ?all = "zs @ (hb, 0 # m) # ps"
    from h assms(1) have wf: "list_all well_framed ?all" by simp
    from h have hp: "header_payloads ?all = header_payloads ps"
      and mpa: "media_payloads ?all = (0 # m) # media_payloads ps"
      using empty_payload_parts[OF e, of "(hb, 0 # m) # ps"]
      by (simp_all add: media_payloads_def header_payloads_def)
    from h hp have dec: "decodable um ?all" by (simp add: decodable_def)
    from stateMachineParser_wire[OF wf dec, of acc False] mpa show ?thesis
      by (simp add: first_media_rule_Cons)
  qed
  from first second show ?thesis by blast
qed

theorem zero_length_media_part_is_skipped_witness:
  "list_all well_framed [([0x15, 0x00], []), ([0x95, 0x00, 0x00], [])]
   \<and> list_all (\<lambda>z. part_type z = 21 \<and> snd z = [])
         [([0x15, 0x00], []), ([0x95, 0x00, 0x00], [])]
   \<and> stateMachineParser (\<lambda>p. Inl ''undecodable'')
         \<lparr>buf = [0x15, 0x00, 0x95, 0x00, 0x00] @ [0x15, 0x03, 0x00, 0x41],
          mediaAcc = [], firstMedia = False\<rparr> =
       (Inr None, \<lparr>buf = [0x00, 0x41], mediaAcc = [], firstMedia = False\<rparr>)
   \<and> well_framed ([0x15, 0x03], [0x00, 0x41, 0x42])
   \<and> part_type ([0x15, 0x03], [0x00, 0x41, 0x42]) = 21
   \<and> list_all well_framed [([0x15, 0x01], [0x00])]
   \<and> snd (stateMachineParser (\<lambda>p. Inl ''undecodable'')
         \<lparr>buf = [0x15, 0x00, 0x95, 0x00, 0x00, 0x15, 0x03, 0x00, 0x41, 0x42, 0x15, 0x01, 0x00],
          mediaAcc = [], firstMedia = False\<rparr>) =
       \<lparr>buf = [], mediaAcc = [0x41, 0x42, 0x00], firstMedia = True\<rparr>"
proof -
  let ?um = "(\<lambda>p. Inl ''undecodable'') :: unmarshal"
  let ?zs = "[([0x15, 0x00], []), ([0x95, 0x00, 0x00], [])] :: part list"
  let ?ps = "[([0x15, 0x01], [0x00])] :: part list"
  have wf: "list_all well_framed ?zs"
    and z: "list_all (\<lambda>z. part_type z = 21 \<and> snd z = []) ?zs"
    and d: "decodable ?um ?ps"
    and w: "well_framed ([0x15, 0x03], [0x00, 0x41, 0x42])"
    and t: "part_type ([0x15, 0x03], [0x00, 0x41, 0x42]) = 21"
    and wp: "list_all well_framed ?ps"
    and m: "media_payloads ?ps = [[0x00]]"
    by (simp_all add: framing_eval)
  have tail: "stateMachineParser ?um
      \<lparr>buf = [0x15, 0x03, 0x00, 0x41], mediaAcc = [], firstMedia = False\<rparr> =
      (Inr None, \<lparr>buf = [0x00, 0x41], mediaAcc = [], firstMedia = False\<rparr>)"
    by (simp add: ump_eval)
  note r = zero_length_media_part_is_skipped[OF wf z, of ?um _ "[]" False]
  from r[of "[0x15, 0x03, 0x00, 0x41]", THEN conjunct1] tail have e1:
    "stateMachineParser ?um
         \<lparr>buf = [0x15, 0x00, 0x95, 0x00, 0x00] @ [0x15, 0x03, 0x00, 0x41],
          mediaAcc = [], firstMedia = False\<rparr> =
       (Inr None, \<lparr>buf = [0x00, 0x41], mediaAcc = [], firstMedia = False\<rparr>)"
    by (simp add: wire_def)
  from r[of "[]", THEN conjunct2, rule_format, of "[0x15, 0x03]" "[0x41, 0x42]" ?ps] w t wp d m
  have e2:
    "snd (stateMachineParser ?um
         \<lparr>buf = [0x15, 0x00, 0x95, 0x00, 0x00, 0x15, 0x03, 0x00, 0x41, 0x42, 0x15, 0x01, 0x00],
          mediaAcc = [], firstMedia = False\<rparr>) =
       \<lparr>buf = [], mediaAcc = [0x41, 0x42, 0x00], firstMedia = True\<rparr>"
    by (simp add: wire_def)
  from wf z w t wp e1 e2 show ?thesis by blast
qed

section \<open>Further facts about errors and chunk boundaries\<close>

text \<open>
  The only error the state machine ever returns is the failure to decode a type-20 payload:
  no error of \<open>readVarInt\<close>, whatever its kind, leaves the loop.
\<close>

lemma smp_loop_only_unmarshal_errors:
  "smp_loop um data off hdr acc fm = (Inl e, a, f) \<Longrightarrow> \<exists>m. e = FailedUnmarshal m"
proof (induction "length data - off" arbitrary: off hdr acc fm rule: less_induct)
  case less
  note unf = smp_loop.simps[of um data off hdr acc fm]
  note res = less.prems
  show ?case
  proof (cases "length data \<le> off")
    case True
    with res show ?thesis by (simp add: unf)
  next
    case False
    obtain r1 o1 where r1: "readVarInt data off = (r1, o1)" by (cases "readVarInt data off")
    show ?thesis
    proof (cases r1)
      case (Inl e')
      with False r1 res show ?thesis by (simp add: unf)
    next
      case (Inr t)
      note t = this
      from readVarInt_advance[of data off t o1] r1 t have o1: "off < o1" by simp
      obtain r2 o2 where r2: "readVarInt data o1 = (r2, o2)" by (cases "readVarInt data o1")
      show ?thesis
      proof (cases r2)
        case (Inl e')
        with False r1 r2 t res show ?thesis by (simp add: unf)
      next
        case (Inr n)
        note n = this
        from readVarInt_advance[of data o1 n o2] r2 n have o2: "o1 < o2" by simp
        have IH: "smp_loop um data (o2 + k) h a' f' = (Inl e, a, f) \<Longrightarrow>
                    \<exists>m. e = FailedUnmarshal m" for k h a' f'
          using less.hyps[of "o2 + k" h a' f'] o1 o2 False by simp
        from False r1 r2 t n res IH[of 0] IH[of n] show ?thesis
          by (auto simp: unf Let_def split: if_splits sum.splits)
      qed
    qed
  qed
qed

lemma stateMachineParser_only_unmarshal_errors:
  "fst (stateMachineParser um s) = Inl e \<Longrightarrow> \<exists>m. e = FailedUnmarshal m"
  using smp_loop_only_unmarshal_errors[of um "buf s" 0 None "mediaAcc s" "firstMedia s" e]
  by (auto simp: stateMachineParser_def Let_def split: prod.splits sum.splits)

text \<open>
  A complete part header followed by fewer payload bytes than it announces: the call
  evicts the header bytes and keeps only the payload bytes read so far, for every part type
  and every encoding of the two varints.
\<close>

lemma stateMachineParser_incomplete_payload:
  assumes "part_header hb = Some (t, n)" "0 < n" "length rest < n"
  shows "stateMachineParser um \<lparr>buf = hb @ rest, mediaAcc = acc, firstMedia = fm\<rparr> =
           (Inr None, \<lparr>buf = rest, mediaAcc = acc, firstMedia = fm\<rparr>)"
proof -
  from assms(1) obtain k where k: "readVarInt hb 0 = (Inr t, k)"
    "readVarInt hb k = (Inr n, length hb)" "0 < k" "k < length hb"
    by (rule part_header_reads)
  have r1: "readVarInt (hb @ rest) 0 = (Inr t, k)"
    using readVarInt_embed[OF k(1), of "[]" rest] by simp
  have r2: "readVarInt (hb @ rest) k = (Inr n, length hb)"
    using readVarInt_embed[OF k(2), of "[]" rest] by simp
  have "0 < length hb" using k(4) by (cases hb) simp_all
  with r1 r2 assms(2,3) show ?thesis
    by (simp add: stateMachineParser_def smp_loop.simps[of um "hb @ rest" 0])
qed

text \<open>
  What does hold between the two entry points: when the data consists of whole parts and
  the split falls on a part boundary, the chunked result is the whole-buffer result.
\<close>

lemma split_at_part_boundary_agrees:
  assumes "ps1 \<noteq> []" "list_all well_framed (ps1 @ ps2)" "decodable um (ps1 @ ps2)"
  shows "ParseUMPFull um (wire ps1 @ wire ps2) = Some (ParseUMPChunks um [wire ps1, wire ps2])"
proof -
  have w: "wire ps1 @ wire ps2 = wire (ps1 @ ps2)" by (simp add: wire_def)
  from assms(1) have ne: "ps1 @ ps2 \<noteq> []" by simp
  from ParseUMPFull_wire[OF ne assms(2,3)]
    ParseUMPChunks_wire[of "[ps1, ps2]" um] assms(2,3)
  show ?thesis by (simp add: w)
qed

text \<open>
  The description of a session by steps leaves no session out. Every buffer is a list of
  whole parts followed by bytes with no complete part at the front, and so every list of
  chunks, from any pending bytes, is a session in the sense of \<open>session_pending\<close>.
\<close>

lemma readVarInt_switch_take:
  assumes "start + sz \<le> j"
  shows "readVarInt_switch (take j data) start first sz = readVarInt_switch data start first sz"
proof -
  have b: "byte_at (take j data) (start + i) = byte_at data (start + i)"
    if "start + i < j" for i
    using that by (simp add: byte_at_def)
  show ?thesis
    using assms b[of 1] b[of 2] b[of 3] b[of 4]
    by (simp add: readVarInt_switch_def)
qed

lemma readVarInt_take:
  assumes "readVarInt data off = (Inr v, off')" "off' \<le> j"
  shows "readVarInt (take j data) off = (Inr v, off')"
proof -
  define first where "first = data ! off"
  define sz where "sz = getVarIntSize first"
  from assms(1) have lt: "off < length data" and nz: "sz \<noteq> 0" and fit: "off + sz \<le> length data"
    and sw: "readVarInt_switch data off first sz = Inr v" and off': "off' = off + sz"
    by (auto simp: readVarInt_def byte_at_def Let_def first_def sz_def
        split: if_splits sum.splits)
  from off' assms(2) nz have j: "off + sz \<le> j" "off < j" by simp_all
  have "byte_at (take j data) off = Inr first"
    using lt j(2) by (simp add: byte_at_def first_def)
  moreover have "readVarInt_switch (take j data) off first sz = Inr v"
    using readVarInt_switch_take[OF j(1), of data first] sw by simp
  ultimately show ?thesis
    using lt nz fit off' j by (simp add: readVarInt_def Let_def sz_def)
qed

lemma buffer_splits:
  "\<exists>ps tail. data = wire ps @ tail \<and> list_all well_framed ps \<and> pending_after tail \<noteq> None"
proof (induction "length data" arbitrary: data rule: less_induct)
  case less
  show ?case
  proof (cases "pending_after data")
    case (Some rest)
    then have "data = wire [] @ data \<and> list_all well_framed [] \<and> pending_after data \<noteq> None"
      by (simp add: wire_Nil)
    then show ?thesis by blast
  next
    case None
    then obtain t k n m where r1: "readVarInt data 0 = (Inr t, k)"
      and r2: "readVarInt data k = (Inr n, m)" and fit: "n = 0 \<or> m + n \<le> length data"
      by (auto simp: pending_after_def split: prod.splits sum.splits if_splits)
    from readVarInt_advance[OF r1] readVarInt_advance[OF r2]
    have km: "0 < k" "k < m" "m \<le> length data" by simp_all
    from fit km have fit': "m + n \<le> length data" by auto
    define hb where "hb = take m data"
    define p where "p = take n (drop m data)"
    define data' where "data' = drop (m + n) data"
    have lhb: "length hb = m" using km by (simp add: hb_def)
    have lp: "length p = n" using fit' by (simp add: p_def)
    have "drop m data = p @ data'"
      using append_take_drop_id[of n "drop m data"] by (simp add: p_def data'_def add.commute)
    with append_take_drop_id[of m data] have split: "data = hb @ p @ data'"
      by (simp add: hb_def)
    have "readVarInt hb 0 = (Inr t, k)"
      using readVarInt_take[OF r1, of m] km by (simp add: hb_def)
    moreover have "readVarInt hb k = (Inr n, m)"
      using readVarInt_take[OF r2, of m] by (simp add: hb_def)
    ultimately have wf: "well_framed (hb, p)"
      by (simp add: well_framed_def part_header_def lhb lp)
    have "length data' < length data" using km by (simp add: data'_def)
    from less[OF this] obtain ps tail where
      rec: "data' = wire ps @ tail" "list_all well_framed ps" "pending_after tail \<noteq> None"
      by blast
    have "data = wire ((hb, p) # ps) @ tail \<and> list_all well_framed ((hb, p) # ps)
            \<and> pending_after tail \<noteq> None"
      using split rec wf by (simp add: wire_Cons)
    then show ?thesis by blast
  qed
qed

lemma every_chunk_list_is_a_session:
  "\<exists>steps. map fst steps = chunks \<and> session_pending pending steps \<noteq> None"
proof (induction chunks arbitrary: pending)
  case Nil
  have "map fst [] = ([] :: byte list list) \<and> session_pending pending [] \<noteq> None" by simp
  then show ?case by (rule exI[of _ "[]"])
next
  case (Cons chunk chunks)
  show ?case
  proof (cases "chunk = []")
    case True
    from Cons[of pending] obtain steps where
      s: "map fst steps = chunks" "session_pending pending steps \<noteq> None" by blast
    with True have "map fst ((chunk, []) # steps) = chunk # chunks
        \<and> session_pending pending ((chunk, []) # steps) \<noteq> None" by simp
    then show ?thesis by (rule exI[of _ "(chunk, []) # steps"])
  next
    case False
    from buffer_splits[of "pending @ chunk"] obtain ps tail rest where
      sp: "pending @ chunk = wire ps @ tail" "list_all well_framed ps"
        "pending_after tail = Some rest" by auto
    from Cons[of rest] obtain steps where
      s: "map fst steps = chunks" "session_pending rest steps \<noteq> None" by blast
    from False sp s have "map fst ((chunk, ps) # steps) = chunk # chunks
        \<and> session_pending pending ((chunk, ps) # steps) \<noteq> None" by simp
    then show ?thesis by (rule exI[of _ "(chunk, ps) # steps"])
  qed
qed

end
